theory Spec2Isabelle
  imports Main "HOL-Library.Word"
begin

section \<open>Machine integers\<close>

text \<open>
  The program is \<^verbatim>\<open>samples/example1.cpp\<close>. Its \<^verbatim>\<open>int\<close> is a 32-bit two's
  complement value, read with \<open>sint\<close>. Signed overflow is undefined behaviour in C++; the
  model does not pick a result for it: an arithmetic operation whose mathematical result
  leaves the range of \<^verbatim>\<open>int\<close> ends the computation with \<open>SignedOverflow\<close>.
\<close>

type_synonym cint = "32 word"

datatype error =
    SignedOverflow
  | BadArrayNewLength
  | InvalidAccess
  | IndeterminateRead
  | InvalidDelete

definition INT_MAX :: int where
  "INT_MAX = 2147483647"

definition INT_MIN :: int where
  "INT_MIN = - 2147483648"

definition in_int_range :: "int \<Rightarrow> bool" where
  "in_int_range r \<longleftrightarrow> INT_MIN \<le> r \<and> r \<le> INT_MAX"

definition int_result :: "int \<Rightarrow> error + cint" where
  "int_result r = (if in_int_range r then Inr (word_of_int r) else Inl SignedOverflow)"

definition add_int :: "cint \<Rightarrow> cint \<Rightarrow> error + cint" where
  "add_int a b = int_result (sint a + sint b)"

definition mul_int :: "cint \<Rightarrow> cint \<Rightarrow> error + cint" where
  "mul_int a b = int_result (sint a * sint b)"

subsection \<open>Arithmetic facts\<close>

lemma in_int_range_sint: "in_int_range (sint (a :: cint))"
  using sint_greater_eq [of a] sint_less [of a]
  by (simp add: in_int_range_def INT_MIN_def INT_MAX_def)

lemma sint_add_in_range:
  "in_int_range (sint a + sint b) \<Longrightarrow> sint (a + b :: cint) = sint a + sint b"
  by (simp add: sint_word_ariths signed_take_bit_int_eq_self in_int_range_def
      INT_MIN_def INT_MAX_def)

lemma sint_mult_in_range:
  "in_int_range (sint a * sint b) \<Longrightarrow> sint (a * b :: cint) = sint a * sint b"
  by (simp add: sint_word_ariths signed_take_bit_int_eq_self in_int_range_def
      INT_MIN_def INT_MAX_def)

lemma add_int_in_range:
  "in_int_range (sint a + sint b) \<Longrightarrow> add_int a b = Inr (a + b)"
  by (simp add: add_int_def int_result_def)

lemma add_int_overflow: "\<not> in_int_range (sint a + sint b) \<Longrightarrow> add_int a b = Inl SignedOverflow"
  by (simp add: add_int_def int_result_def)

lemma mul_int_in_range:
  "in_int_range (sint a * sint b) \<Longrightarrow> mul_int a b = Inr (a * b)"
  by (simp add: mul_int_def int_result_def)

lemma mul_int_overflow: "\<not> in_int_range (sint a * sint b) \<Longrightarrow> mul_int a b = Inl SignedOverflow"
  by (simp add: mul_int_def int_result_def)

lemma add_int_one_sint: "add_int (i :: cint) 1 = Inr i' \<Longrightarrow> sint i' = sint i + 1"
  using sint_add_in_range [of i 1] add_int_in_range [of i 1] add_int_overflow [of i 1]
  by (cases "in_int_range (sint i + sint (1::cint))") auto

lemma sint_succ_less: "sint (i :: cint) < sint (sz :: cint) \<Longrightarrow> sint (i + 1) = sint i + 1"
  using sint_add_in_range [of i 1] in_int_range_sint [of i] in_int_range_sint [of sz]
  by (simp add: in_int_range_def INT_MAX_def INT_MIN_def)

lemma word_of_nat_sint: "0 \<le> sint (i :: cint) \<Longrightarrow> word_of_nat (nat (sint i)) = i"
  by (simp add: of_nat_nat)

section \<open>Global state\<close>

text \<open>
  The globals of the program that its functions read or write:
  \<^verbatim>\<open>
  int Global_count = 0;
  std::mutex globalMutex;
  \<close>
  together with \<^verbatim>\<open>std::cout\<close> and the free store.

  \<^verbatim>\<open>cout\<close> is the list of the lines written so far. Every output statement of the
  program ends in \<^verbatim>\<open>endl\<close>, so each one appends one line; a line is the list of the
  operands of \<^verbatim>\<open><<\<close>: a string literal or \<^verbatim>\<open>std::string\<close>, an \<^verbatim>\<open>int\<close> (its
  value), or a \<^verbatim>\<open>bool\<close>.

  \<open>globalMutex\<close> is \<open>None\<close> when the mutex is free and \<open>Some p\<close> when the thread \<open>p\<close>
  holds it. The threads of the program are \<open>Main\<close> and the two workers \<open>T1\<close> and \<open>T2\<close>
  (the \<^verbatim>\<open>std::thread\<close> objects \<^verbatim>\<open>t1\<close> and \<^verbatim>\<open>t2\<close> of \<^verbatim>\<open>main\<close>).

  The free store is the list of the arrays allocated so far; a pointer returned by
  \<^verbatim>\<open>new int[n]\<close> is the position of its array in that list. A cell of a fresh array holds
  no value (\<open>None\<close>: reading it is an error) until it is assigned. An array is \<open>Live\<close> from
  its allocation until it is passed to \<^verbatim>\<open>delete[]\<close>, and \<open>Released\<close> afterwards.
  \<^verbatim>\<open>new int[n]\<close> with a negative \<open>n\<close> throws; running out of memory is not modelled.
\<close>

datatype token = Str string | Num int | Flag bool

type_synonym line = "token list"

datatype thread_id = Main | T1 | T2

datatype block = Live "cint option list" | Released

type_synonym heap = "block list"

record globals =
  Global_count :: cint
  globalMutex :: "thread_id option"
  cout :: "line list"
  free_store :: heap

definition initial_globals :: globals where
  "initial_globals = \<lparr>Global_count = 0, globalMutex = None, cout = [], free_store = []\<rparr>"

definition print_line :: "line \<Rightarrow> globals \<Rightarrow> globals" where
  "print_line l s = s\<lparr>cout := cout s @ [l]\<rparr>"

subsection \<open>The free store\<close>

definition new_int_array :: "heap \<Rightarrow> cint \<Rightarrow> error + (nat \<times> heap)" where
  "new_int_array h n =
     (if sint n < 0 then Inl BadArrayNewLength
      else Inr (length h, h @ [Live (replicate (nat (sint n)) None)]))"

definition store_int :: "heap \<Rightarrow> nat \<Rightarrow> int \<Rightarrow> cint \<Rightarrow> error + heap" where
  "store_int h p i v =
     (if p < length h then
        (case h ! p of
           Live xs \<Rightarrow>
             if 0 \<le> i \<and> i < int (length xs) then Inr (h[p := Live (xs[nat i := Some v])])
             else Inl InvalidAccess
         | Released \<Rightarrow> Inl InvalidAccess)
      else Inl InvalidAccess)"

definition load_int :: "heap \<Rightarrow> nat \<Rightarrow> int \<Rightarrow> error + cint" where
  "load_int h p i =
     (if p < length h then
        (case h ! p of
           Live xs \<Rightarrow>
             if 0 \<le> i \<and> i < int (length xs) then
               (case xs ! nat i of None \<Rightarrow> Inl IndeterminateRead | Some v \<Rightarrow> Inr v)
             else Inl InvalidAccess
         | Released \<Rightarrow> Inl InvalidAccess)
      else Inl InvalidAccess)"

text \<open>
  \<^verbatim>\<open>delete[] p\<close>. The program never executes it: its only occurrence is the comment
  \<^verbatim>\<open>// forgot: delete[] dm.rawBuffer;  // leak!\<close> at the end of \<^verbatim>\<open>main\<close>.
\<close>

definition delete_int_array :: "heap \<Rightarrow> nat \<Rightarrow> error + heap" where
  "delete_int_array h p =
     (if p < length h then
        (case h ! p of Live xs \<Rightarrow> Inr (h[p := Released]) | Released \<Rightarrow> Inl InvalidDelete)
      else Inl InvalidDelete)"

fun is_live :: "block \<Rightarrow> bool" where
  "is_live (Live xs) = True"
| "is_live Released = False"

definition live_blocks :: "heap \<Rightarrow> nat" where
  "live_blocks h = length (filter is_live h)"

section \<open>calculateTotal\<close>

text \<open>
  \<^verbatim>\<open>
  int calculateTotal(int A, int B, int C, int D)
  {
      int Result = A + B + C + D;
      if (Result > 100)
      {
          cout << "Large total: " << Result << endl;
      }
      return Result;
  }
  \<close>
  The sum is evaluated from the left: \<open>((A + B) + C) + D\<close>.
\<close>

definition calculateTotal :: "cint \<Rightarrow> cint \<Rightarrow> cint \<Rightarrow> cint \<Rightarrow> globals \<Rightarrow> error + (cint \<times> globals)" where
  "calculateTotal A B C D s =
     (case add_int A B of Inl e \<Rightarrow> Inl e | Inr ab \<Rightarrow>
     (case add_int ab C of Inl e \<Rightarrow> Inl e | Inr abc \<Rightarrow>
     (case add_int abc D of Inl e \<Rightarrow> Inl e | Inr Result \<Rightarrow>
        Inr (Result,
             if 100 < sint Result then print_line [Str ''Large total: '', Num (sint Result)] s
             else s))))"

section \<open>data_manager\<close>

text \<open>
  \<^verbatim>\<open>
  class data_manager
  {
  public:
      int *rawBuffer;
      size_t size;

      data_manager(int sz)
      {
          size = sz;
          rawBuffer = new int[sz];
          for (int i = 0; i < sz; i++)
          {
              rawBuffer[i] = i * 2;
          }
      }

      void PrintData()
      {
          for (int i = 0; i < size; i++)
          {
              cout << "Val: " << rawBuffer[i] << endl;
          }
      }
      // no destructor -> memory leak, no RAII, no Rule of Five
  };
  \<close>
  The field \<^verbatim>\<open>size\<close> is named \<open>size_field\<close> here. \<^verbatim>\<open>size_t\<close> is a 64-bit unsigned
  integer; the conversion from \<^verbatim>\<open>int\<close> reduces modulo \<open>2 ^ 64\<close>.
\<close>

record data_manager =
  rawBuffer :: nat
  size_field :: nat

definition size_t_of_int :: "cint \<Rightarrow> nat" where
  "size_t_of_int i = nat (sint i mod 2 ^ 64)"

text \<open>
  The loop of the constructor, from the value \<open>i\<close> of its counter. Inside the loop
  \<open>i < sz\<close>, so \<^verbatim>\<open>i++\<close> cannot overflow and is the addition of the word type.
\<close>

function data_manager_fill :: "nat \<Rightarrow> cint \<Rightarrow> cint \<Rightarrow> heap \<Rightarrow> error + heap" where
  "data_manager_fill p sz i h =
     (if sint i < sint sz then
        (case mul_int i 2 of Inl e \<Rightarrow> Inl e | Inr v \<Rightarrow>
        (case store_int h p (sint i) v of Inl e \<Rightarrow> Inl e | Inr h' \<Rightarrow>
           data_manager_fill p sz (i + 1) h'))
      else Inr h)"
  by pat_completeness auto
termination
  by (relation "measure (\<lambda>(p, sz, i, h). nat (sint sz - sint i))") (auto simp: sint_succ_less)

definition data_manager :: "cint \<Rightarrow> globals \<Rightarrow> error + (data_manager \<times> globals)" where
  "data_manager sz s =
     (case new_int_array (free_store s) sz of Inl e \<Rightarrow> Inl e | Inr (p, h1) \<Rightarrow>
     (case data_manager_fill p sz 0 h1 of Inl e \<Rightarrow> Inl e | Inr h2 \<Rightarrow>
        Inr (\<lparr>rawBuffer = p, size_field = size_t_of_int sz\<rparr>, s\<lparr>free_store := h2\<rparr>)))"

text \<open>
  The loop of \<^verbatim>\<open>PrintData\<close>, from the value \<open>i\<close> of its counter. The comparison
  \<^verbatim>\<open>i < size\<close> converts \<open>i\<close> to \<^verbatim>\<open>size_t\<close>; \<open>size\<close> may exceed \<open>INT_MAX\<close>, so
  \<^verbatim>\<open>i++\<close> is checked for overflow.
\<close>

function PrintData_loop :: "data_manager \<Rightarrow> cint \<Rightarrow> globals \<Rightarrow> error + globals" where
  "PrintData_loop dm i s =
     (if size_t_of_int i < size_field dm then
        (case load_int (free_store s) (rawBuffer dm) (sint i) of Inl e \<Rightarrow> Inl e | Inr v \<Rightarrow>
        (case add_int i 1 of Inl e \<Rightarrow> Inl e | Inr i' \<Rightarrow>
           PrintData_loop dm i' (print_line [Str ''Val: '', Num (sint v)] s)))
      else Inr s)"
  by pat_completeness auto
termination
  by (relation "measure (\<lambda>(dm, i, s). nat (INT_MAX + 1 - sint i))")
    (use in_int_range_sint in \<open>auto simp: add_int_one_sint in_int_range_def\<close>)

definition PrintData :: "data_manager \<Rightarrow> globals \<Rightarrow> error + globals" where
  "PrintData dm s = PrintData_loop dm 0 s"

text \<open>
  The class declares no destructor. The implicitly declared one destroys the members
  \<open>rawBuffer\<close> (a pointer) and \<open>size\<close>, which does nothing to the free store.
\<close>

definition data_manager_dtor :: "data_manager \<Rightarrow> globals \<Rightarrow> globals" where
  "data_manager_dtor dm s = s"

section \<open>WorkerThread\<close>

text \<open>
  \<^verbatim>\<open>
  #define maxCount 10

  struct Config
  {
      int Port;
      string HostName;
      bool useSSL;
  };

  void WorkerThread(int ID, data_manager &dm, Config cfg)
  {
      for (int i = 0; i < maxCount; i++)
      {
          std::lock_guard<std::mutex> lock(globalMutex);
          Global_count += 1;
          cout << "Worker " << ID << " iteration " << i
               << " host=" << cfg.HostName
               << " port=" << cfg.Port
               << " useSSL=" << cfg.useSSL
               << endl;
          if (Global_count > 50)
          {
              cout << "High load warning!" << endl;
          }
      }
  }
  \<close>
  Two activations of this function run concurrently, so it is modelled by its single
  steps. The locals of an activation are its parameters \<open>ID\<close> and \<open>cfg\<close> (passed by
  value: the activation owns a copy) and the point it has reached, which carries the loop
  counter \<open>i\<close>. The parameter \<^verbatim>\<open>dm\<close> is a reference to the object of \<^verbatim>\<open>main\<close>; the
  body never uses it. The points of control name the statement that is executed next:
  \<^item> \<open>LoopTest i\<close>: the test \<^verbatim>\<open>i < maxCount\<close>;
  \<^item> \<open>Lock i\<close>: the constructor of the \<^verbatim>\<open>lock_guard\<close>, which waits until the mutex is
    free and takes it;
  \<^item> \<open>Increment i\<close>: \<^verbatim>\<open>Global_count += 1\<close>;
  \<^item> \<open>Status i\<close>: the output of the status line;
  \<^item> \<open>LoadCheck i\<close>: the test \<^verbatim>\<open>Global_count > 50\<close> with the output of the warning;
  \<^item> \<open>Unlock i\<close>: the end of the loop body, where the destructor of the \<^verbatim>\<open>lock_guard\<close>
    releases the mutex, followed by \<^verbatim>\<open>i++\<close> (\<open>i < maxCount\<close> there, so it cannot
    overflow);
  \<^item> \<open>Returned\<close>: the function has returned;
  \<^item> \<open>Undefined\<close>: the increment of \<open>Global_count\<close> has overflowed.

  An activation reads and writes \<open>Global_count\<close> and \<^verbatim>\<open>cout\<close> only between the
  construction and the destruction of its \<^verbatim>\<open>lock_guard\<close>, and \<^verbatim>\<open>main\<close> only before it
  creates the threads and after it has joined them, so the program has no data race and
  the interleaving of whole statements describes all its executions.
\<close>

record Config =
  Port :: cint
  HostName :: string
  useSSL :: bool

definition maxCount :: int where
  "maxCount = 10"

definition status_line :: "cint \<Rightarrow> cint \<Rightarrow> Config \<Rightarrow> line" where
  "status_line n i c =
     [Str ''Worker '', Num (sint n), Str '' iteration '', Num (sint i),
      Str '' host='', Str (HostName c), Str '' port='', Num (sint (Port c)),
      Str '' useSSL='', Flag (useSSL c)]"

definition warning_line :: line where
  "warning_line = [Str ''High load warning!'']"

datatype wpc =
    LoopTest cint
  | Lock cint
  | Increment cint
  | Status cint
  | LoadCheck cint
  | Unlock cint
  | Returned
  | Undefined

record worker =
  ID :: cint
  cfg :: Config
  pc :: wpc

text \<open>
  One step of the activation \<open>w\<close> run by the thread \<open>p\<close>, on the globals \<open>s\<close>; \<open>None\<close>
  when it cannot take a step (it waits for the mutex, or it has ended).
\<close>

definition WorkerThread_step :: "thread_id \<Rightarrow> worker \<Rightarrow> globals \<Rightarrow> (worker \<times> globals) option" where
  "WorkerThread_step p w s =
     (case pc w of
        LoopTest i \<Rightarrow> Some (w\<lparr>pc := if sint i < maxCount then Lock i else Returned\<rparr>, s)
      | Lock i \<Rightarrow>
          (if globalMutex s = None then Some (w\<lparr>pc := Increment i\<rparr>, s\<lparr>globalMutex := Some p\<rparr>)
           else None)
      | Increment i \<Rightarrow>
          (case add_int (Global_count s) 1 of
             Inl e \<Rightarrow> Some (w\<lparr>pc := Undefined\<rparr>, s)
           | Inr v \<Rightarrow> Some (w\<lparr>pc := Status i\<rparr>, s\<lparr>Global_count := v\<rparr>))
      | Status i \<Rightarrow> Some (w\<lparr>pc := LoadCheck i\<rparr>, print_line (status_line (ID w) i (cfg w)) s)
      | LoadCheck i \<Rightarrow>
          Some (w\<lparr>pc := Unlock i\<rparr>,
                if 50 < sint (Global_count s) then print_line warning_line s else s)
      | Unlock i \<Rightarrow> Some (w\<lparr>pc := LoopTest (i + 1)\<rparr>, s\<lparr>globalMutex := None\<rparr>)
      | Returned \<Rightarrow> None
      | Undefined \<Rightarrow> None)"

section \<open>main\<close>

text \<open>
  \<^verbatim>\<open>
  int main()
  {
      cout << "Starting bad-style demo..." << endl;

      Config cfg;
      cfg.Port = 8080;
      cfg.HostName = "localhost";
      cfg.useSSL = true;

      data_manager dm(10);
      dm.PrintData();

      std::vector<int> nums;
      for (int i = 0; i < 20; i++)
      {
          nums.push_back(i * 3);
      }

      std::map<string, int> nameToScore;
      nameToScore["alice"] = 90;
      nameToScore["bob"] = 75;

      int total = calculateTotal(1, 2, 3, 4);
      cout << "Total: " << total << endl;

      std::thread t1(WorkerThread, 1, std::ref(dm), cfg);  // copies cfg
      std::thread t2(WorkerThread, 2, std::ref(dm), cfg);

      t1.join();
      t2.join();

      cout << "Global_count = " << Global_count << endl;

      // forgot: delete[] dm.rawBuffer;  // leak!

      return 0;
  }
  \<close>
  The state of the running program: the globals, the locals of \<^verbatim>\<open>main\<close> with the point
  it has reached, and the activation of \<^verbatim>\<open>WorkerThread\<close> that each started thread runs.
  The standard containers \<open>nums\<close> and \<open>nameToScore\<close> manage their own storage, which is
  not part of \<open>free_store\<close>. Up to the creation of the first thread \<^verbatim>\<open>main\<close> runs alone:
  \<open>main_prologue\<close> is that part. From there on \<^verbatim>\<open>main\<close> is modelled by its single steps:
  \<^item> \<open>Spawn1\<close>, \<open>Spawn2\<close>: the construction of \<open>t1\<close> and of \<open>t2\<close>, which starts
    \<^verbatim>\<open>WorkerThread\<close> on a copy of \<open>cfg\<close>;
  \<^item> \<open>Join1\<close>, \<open>Join2\<close>: \<^verbatim>\<open>t1.join()\<close> and \<^verbatim>\<open>t2.join()\<close>, which wait until the thread
    has returned;
  \<^item> \<open>Report\<close>: the output of \<open>Global_count\<close>;
  \<^item> \<open>Return\<close>: \<^verbatim>\<open>return 0\<close>, where the locals are destroyed;
  \<^item> \<open>Exited\<close>: \<^verbatim>\<open>main\<close> has returned.
\<close>

datatype mpc = Spawn1 | Spawn2 | Join1 | Join2 | Report | Return | Exited

record sys =
  shared :: globals
  main_pc :: mpc
  main_cfg :: Config
  main_dm :: data_manager
  main_nums :: "cint list"
  main_nameToScore :: "(string \<times> cint) list"
  main_total :: cint
  threads :: "thread_id \<Rightarrow> worker option"

definition main_prologue :: "globals \<Rightarrow> error + sys" where
  "main_prologue s0 =
     (case data_manager 10 (print_line [Str ''Starting bad-style demo...''] s0) of
        Inl e \<Rightarrow> Inl e | Inr (dm, s1) \<Rightarrow>
     (case PrintData dm s1 of Inl e \<Rightarrow> Inl e | Inr s2 \<Rightarrow>
     (case calculateTotal 1 2 3 4 s2 of Inl e \<Rightarrow> Inl e | Inr (total', s3) \<Rightarrow>
        Inr \<lparr>shared = print_line [Str ''Total: '', Num (sint total')] s3,
             main_pc = Spawn1,
             main_cfg = \<lparr>Port = 8080, HostName = ''localhost'', useSSL = True\<rparr>,
             main_dm = dm,
             main_nums = map (\<lambda>i. word_of_nat i * 3) [0..<20],
             main_nameToScore = [(''alice'', 90), (''bob'', 75)],
             main_total = total',
             threads = (\<lambda>p. None)\<rparr>)))"

fun returned :: "worker option \<Rightarrow> bool" where
  "returned (Some w) = (pc w = Returned)"
| "returned None = False"

definition main_step :: "sys \<Rightarrow> sys option" where
  "main_step s =
     (case main_pc s of
        Spawn1 \<Rightarrow>
          Some (s\<lparr>threads := (threads s)(T1 \<mapsto> \<lparr>ID = 1, cfg = main_cfg s, pc = LoopTest 0\<rparr>),
                  main_pc := Spawn2\<rparr>)
      | Spawn2 \<Rightarrow>
          Some (s\<lparr>threads := (threads s)(T2 \<mapsto> \<lparr>ID = 2, cfg = main_cfg s, pc = LoopTest 0\<rparr>),
                  main_pc := Join1\<rparr>)
      | Join1 \<Rightarrow> if returned (threads s T1) then Some (s\<lparr>main_pc := Join2\<rparr>) else None
      | Join2 \<Rightarrow> if returned (threads s T2) then Some (s\<lparr>main_pc := Report\<rparr>) else None
      | Report \<Rightarrow>
          Some (s\<lparr>shared := print_line [Str ''Global_count = '', Num (sint (Global_count (shared s)))]
                              (shared s),
                  main_pc := Return\<rparr>)
      | Return \<Rightarrow> Some (s\<lparr>shared := data_manager_dtor (main_dm s) (shared s), main_pc := Exited\<rparr>)
      | Exited \<Rightarrow> None)"

text \<open>
  One step of the program, taken by the thread \<open>p\<close>; \<open>None\<close> when \<open>p\<close> cannot take a
  step. A schedule is the list of the threads chosen to run, one step each; a thread
  chosen while it cannot take a step leaves the state as it is.
\<close>

definition sys_step :: "thread_id \<Rightarrow> sys \<Rightarrow> sys option" where
  "sys_step p s =
     (case p of
        Main \<Rightarrow> main_step s
      | _ \<Rightarrow>
          (case threads s p of
             None \<Rightarrow> None
           | Some w \<Rightarrow>
               (case WorkerThread_step p w (shared s) of
                  None \<Rightarrow> None
                | Some (w', g) \<Rightarrow> Some (s\<lparr>shared := g, threads := (threads s)(p \<mapsto> w')\<rparr>))))"

fun exec :: "thread_id list \<Rightarrow> sys \<Rightarrow> sys" where
  "exec [] s = s"
| "exec (p # ps) s = (case sys_step p s of None \<Rightarrow> exec ps s | Some s' \<Rightarrow> exec ps s')"

section \<open>The program under a schedule\<close>

text \<open>
  \<open>main sched\<close> is the state of the program after \<^verbatim>\<open>main\<close> has run up to the creation
  of the threads and the threads have then taken the steps of the schedule \<open>sched\<close>.
  \<open>run\<close> lists the steps taken along a schedule: the thread, the state before and the
  state after the step.
\<close>

definition main :: "thread_id list \<Rightarrow> error + sys" where
  "main sched =
     (case main_prologue initial_globals of Inl e \<Rightarrow> Inl e | Inr s \<Rightarrow> Inr (exec sched s))"

text \<open>The state that \<open>main_prologue\<close> reaches from the initial globals.\<close>

definition program_start :: sys where
  "program_start =
     \<lparr>shared =
        \<lparr>Global_count = 0, globalMutex = None,
         cout = [Str ''Starting bad-style demo...''] #
                map (\<lambda>i. [Str ''Val: '', Num (2 * int i)]) [0..<10] @ [[Str ''Total: '', Num 10]],
         free_store = [Live (map (\<lambda>k. Some (word_of_nat k * 2)) [0..<10])]\<rparr>,
      main_pc = Spawn1,
      main_cfg = \<lparr>Port = 8080, HostName = ''localhost'', useSSL = True\<rparr>,
      main_dm = \<lparr>rawBuffer = 0, size_field = 10\<rparr>,
      main_nums = map (\<lambda>i. word_of_nat i * 3) [0..<20],
      main_nameToScore = [(''alice'', 90), (''bob'', 75)],
      main_total = 10,
      threads = (\<lambda>p. None)\<rparr>"

fun run :: "thread_id list \<Rightarrow> sys \<Rightarrow> (thread_id \<times> sys \<times> sys) list" where
  "run [] s = []"
| "run (p # ps) s =
     (case sys_step p s of None \<Rightarrow> run ps s | Some s' \<Rightarrow> (p, s, s') # run ps s')"

definition pc_of :: "sys \<Rightarrow> thread_id \<Rightarrow> wpc option" where
  "pc_of s p = map_option pc (threads s p)"

text \<open>The state in which \<^verbatim>\<open>main\<close> is about to create the threads, the mutex being free.\<close>

definition at_spawn :: "sys \<Rightarrow> bool" where
  "at_spawn s \<longleftrightarrow>
     main_pc s = Spawn1 \<and> threads s Main = None \<and> threads s T1 = None \<and>
     threads s T2 = None \<and> globalMutex (shared s) = None"


text \<open>Both \<^verbatim>\<open>join\<close> calls of \<^verbatim>\<open>main\<close> have returned.\<close>

definition both_joined :: "sys \<Rightarrow> bool" where
  "both_joined s \<longleftrightarrow> main_pc s = Report \<or> main_pc s = Return \<or> main_pc s = Exited"

text \<open>
  Between the construction of the \<^verbatim>\<open>lock_guard\<close> and its destruction the activation is
  inside the scope of the lock.
\<close>

fun holds_lock :: "wpc \<Rightarrow> bool" where
  "holds_lock (LoopTest i) = False"
| "holds_lock (Lock i) = False"
| "holds_lock (Increment i) = True"
| "holds_lock (Status i) = True"
| "holds_lock (LoadCheck i) = True"
| "holds_lock (Unlock i) = True"
| "holds_lock Returned = False"
| "holds_lock Undefined = True"

definition in_lock_scope :: "sys \<Rightarrow> thread_id \<Rightarrow> bool" where
  "in_lock_scope s p = (case threads s p of None \<Rightarrow> False | Some w \<Rightarrow> holds_lock (pc w))"

text \<open>
  The number of iterations of the loop that an activation has completed (iteration \<open>i\<close>
  is complete when its body has been left), and the number of increments of
  \<open>Global_count\<close> that it has executed.
\<close>

fun completed :: "wpc \<Rightarrow> int" where
  "completed (LoopTest i) = sint i"
| "completed (Lock i) = sint i"
| "completed (Increment i) = sint i"
| "completed (Status i) = sint i"
| "completed (LoadCheck i) = sint i"
| "completed (Unlock i) = sint i"
| "completed Returned = maxCount"
| "completed Undefined = 0"

fun incremented :: "wpc \<Rightarrow> int" where
  "incremented (LoopTest i) = sint i"
| "incremented (Lock i) = sint i"
| "incremented (Increment i) = sint i"
| "incremented (Status i) = sint i + 1"
| "incremented (LoadCheck i) = sint i + 1"
| "incremented (Unlock i) = sint i + 1"
| "incremented Returned = maxCount"
| "incremented Undefined = 0"

definition iterations_completed :: "sys \<Rightarrow> int" where
  "iterations_completed s =
     (case threads s T1 of None \<Rightarrow> 0 | Some w \<Rightarrow> completed (pc w)) +
     (case threads s T2 of None \<Rightarrow> 0 | Some w \<Rightarrow> completed (pc w))"

definition increments_executed :: "sys \<Rightarrow> int" where
  "increments_executed s =
     (case threads s T1 of None \<Rightarrow> 0 | Some w \<Rightarrow> incremented (pc w)) +
     (case threads s T2 of None \<Rightarrow> 0 | Some w \<Rightarrow> incremented (pc w))"

text \<open>
  The statements of one iteration of the loop, in the order of their execution, and the
  statements of a whole activation.
\<close>

definition iteration :: "nat \<Rightarrow> wpc list" where
  "iteration k =
     [LoopTest (word_of_nat k), Lock (word_of_nat k), Increment (word_of_nat k),
      Status (word_of_nat k), LoadCheck (word_of_nat k), Unlock (word_of_nat k)]"



section \<open>Construction and destruction in a block\<close>

text \<open>
  The program constructs one data_manager, in \<^verbatim>\<open>main\<close>. A block
  \<^verbatim>\<open>{ data_manager dm(sz); }\<close> constructs an object and destroys it at its end;
  \<open>repeat_scoped n sz\<close> executes \<open>n\<close> such blocks in sequence.
\<close>

definition scoped_data_manager :: "cint \<Rightarrow> globals \<Rightarrow> error + globals" where
  "scoped_data_manager sz s =
     (case data_manager sz s of Inl e \<Rightarrow> Inl e | Inr (dm, s') \<Rightarrow> Inr (data_manager_dtor dm s'))"

fun repeat_scoped :: "nat \<Rightarrow> cint \<Rightarrow> globals \<Rightarrow> error + globals" where
  "repeat_scoped 0 sz s = Inr s"
| "repeat_scoped (Suc n) sz s =
     (case scoped_data_manager sz s of Inl e \<Rightarrow> Inl e | Inr s' \<Rightarrow> repeat_scoped n sz s')"

section \<open>Invariants of the running program\<close>

text \<open>
  The loop counter of an activation stays between 0 and \<open>maxCount\<close>, and is below
  \<open>maxCount\<close> inside the loop body.
\<close>

fun wpc_ok :: "wpc \<Rightarrow> bool" where
  "wpc_ok (LoopTest i) = (0 \<le> sint i \<and> sint i \<le> maxCount)"
| "wpc_ok (Lock i) = (0 \<le> sint i \<and> sint i < maxCount)"
| "wpc_ok (Increment i) = (0 \<le> sint i \<and> sint i < maxCount)"
| "wpc_ok (Status i) = (0 \<le> sint i \<and> sint i < maxCount)"
| "wpc_ok (LoadCheck i) = (0 \<le> sint i \<and> sint i < maxCount)"
| "wpc_ok (Unlock i) = (0 \<le> sint i \<and> sint i < maxCount)"
| "wpc_ok Returned = True"
| "wpc_ok Undefined = True"

definition worker_ok :: "sys \<Rightarrow> thread_id \<Rightarrow> bool" where
  "worker_ok s p = (case threads s p of None \<Rightarrow> True | Some w \<Rightarrow> wpc_ok (pc w))"

text \<open>
  The threads that exist at each point of \<^verbatim>\<open>main\<close>: none before \<open>t1\<close> is constructed,
  and a thread has returned once \<^verbatim>\<open>join\<close> on it has returned.
\<close>

definition main_ok :: "sys \<Rightarrow> bool" where
  "main_ok s \<longleftrightarrow>
     threads s Main = None \<and>
     (case main_pc s of
        Spawn1 \<Rightarrow> threads s T1 = None \<and> threads s T2 = None
      | Spawn2 \<Rightarrow> threads s T1 \<noteq> None \<and> threads s T2 = None
      | Join1 \<Rightarrow> threads s T1 \<noteq> None \<and> threads s T2 \<noteq> None
      | Join2 \<Rightarrow> returned (threads s T1) \<and> threads s T2 \<noteq> None
      | Report \<Rightarrow> returned (threads s T1) \<and> returned (threads s T2)
      | Return \<Rightarrow> returned (threads s T1) \<and> returned (threads s T2)
      | Exited \<Rightarrow> returned (threads s T1) \<and> returned (threads s T2))"

text \<open>The mutex is held by a thread exactly when that thread is inside the scope of its lock.\<close>

definition mutex_ok :: "sys \<Rightarrow> bool" where
  "mutex_ok s \<longleftrightarrow> (\<forall>p. in_lock_scope s p \<longleftrightarrow> globalMutex (shared s) = Some p)"

definition sys_inv :: "sys \<Rightarrow> bool" where
  "sys_inv s \<longleftrightarrow> main_ok s \<and> mutex_ok s \<and> (\<forall>p. worker_ok s p)"



text \<open>
  The place of a statement in the sequence of the statements that an activation
  executes, and the value of \<open>Global_count\<close> in terms of the increments executed since
  the threads were created with the value \<open>g0\<close>.
\<close>

fun position :: "wpc \<Rightarrow> nat" where
  "position (LoopTest i) = 6 * nat (sint i)"
| "position (Lock i) = 6 * nat (sint i) + 1"
| "position (Increment i) = 6 * nat (sint i) + 2"
| "position (Status i) = 6 * nat (sint i) + 3"
| "position (LoadCheck i) = 6 * nat (sint i) + 4"
| "position (Unlock i) = 6 * nat (sint i) + 5"
| "position Returned = 6 * nat maxCount + 1"
| "position Undefined = 6 * nat maxCount + 2"

definition count_ok :: "int \<Rightarrow> sys \<Rightarrow> bool" where
  "count_ok g0 s \<longleftrightarrow>
     sint (Global_count (shared s)) = g0 + increments_executed s \<and>
     (\<forall>p. pc_of s p \<noteq> Some Undefined)"

text \<open>The number of steps that remain to be taken until \<^verbatim>\<open>main\<close> has returned.\<close>

fun main_remaining :: "mpc \<Rightarrow> nat" where
  "main_remaining Spawn1 = 6"
| "main_remaining Spawn2 = 5"
| "main_remaining Join1 = 4"
| "main_remaining Join2 = 3"
| "main_remaining Report = 2"
| "main_remaining Return = 1"
| "main_remaining Exited = 0"

definition worker_remaining :: "worker option \<Rightarrow> nat" where
  "worker_remaining t =
     (case t of None \<Rightarrow> 6 * nat maxCount + 1 | Some w \<Rightarrow> 6 * nat maxCount + 1 - position (pc w))"

definition remaining :: "sys \<Rightarrow> nat" where
  "remaining s =
     main_remaining (main_pc s) + worker_remaining (threads s T1) + worker_remaining (threads s T2)"


section \<open>Properties of calculateTotal\<close>

lemma calculateTotal_in_range:
  assumes "in_int_range (sint A + sint B)"
    and "in_int_range (sint A + sint B + sint C)"
    and "in_int_range (sint A + sint B + sint C + sint D)"
  shows "calculateTotal A B C D s =
           Inr (A + B + C + D,
                if 100 < sint A + sint B + sint C + sint D
                then print_line [Str ''Large total: '', Num (sint A + sint B + sint C + sint D)] s
                else s)"
    and "sint (A + B + C + D) = sint A + sint B + sint C + sint D"
proof -
  have ab: "add_int A B = Inr (A + B)" "sint (A + B) = sint A + sint B"
    using add_int_in_range [OF assms(1)] sint_add_in_range [OF assms(1)] by simp_all
  have abc: "add_int (A + B) C = Inr (A + B + C)" "sint (A + B + C) = sint A + sint B + sint C"
    using add_int_in_range [of "A + B" C] sint_add_in_range [of "A + B" C] assms(2) ab(2)
    by simp_all
  have r: "add_int (A + B + C) D = Inr (A + B + C + D)"
    "sint (A + B + C + D) = sint A + sint B + sint C + sint D"
    using add_int_in_range [of "A + B + C" D] sint_add_in_range [of "A + B + C" D] assms(3) abc(2)
    by simp_all
  show "sint (A + B + C + D) = sint A + sint B + sint C + sint D" by (rule r(2))
  show "calculateTotal A B C D s =
           Inr (A + B + C + D,
                if 100 < sint A + sint B + sint C + sint D
                then print_line [Str ''Large total: '', Num (sint A + sint B + sint C + sint D)] s
                else s)"
    by (simp add: calculateTotal_def ab(1) abc(1) r)
qed

lemma calculateTotal_1_2_3_4: "calculateTotal 1 2 3 4 s = Inr (10, s)"
  by (simp add: calculateTotal_def add_int_def int_result_def in_int_range_def
      INT_MIN_def INT_MAX_def)

lemma calculateTotal_30s:
  "calculateTotal 30 30 30 30 s = Inr (120, print_line [Str ''Large total: '', Num 120] s)"
  by (simp add: calculateTotal_def add_int_def int_result_def in_int_range_def
      INT_MIN_def INT_MAX_def)

text \<open>
  C3 (as stated: for every four integer arguments the function returns their sum). The
  claim fails where a partial sum leaves the range of \<^verbatim>\<open>int\<close>: at
  \<open>(2147483647, 1, 0, 0)\<close> the addition \<open>A + B\<close> overflows, and no \<^verbatim>\<open>int\<close> equals the
  sum \<open>2147483648\<close>.
\<close>

theorem calculateTotal_sum_counterexample:
  "calculateTotal 2147483647 1 0 0 initial_globals = Inl SignedOverflow"
  by (simp add: calculateTotal_def add_int_def int_result_def in_int_range_def
      INT_MIN_def INT_MAX_def)

text \<open>
  C3 (amended): whenever the partial sums \<open>A + B\<close>, \<open>A + B + C\<close> and \<open>A + B + C + D\<close> stay
  in the range of \<^verbatim>\<open>int\<close>, calculateTotal returns the sum of its four arguments, whether
  or not the large-total line is written; it returns 10 on \<open>(1, 2, 3, 4)\<close> and 120 on
  \<open>(30, 30, 30, 30)\<close>.
\<close>

theorem calculateTotal_returns_sum:
  "(in_int_range (sint A + sint B) \<and> in_int_range (sint A + sint B + sint C) \<and>
    in_int_range (sint A + sint B + sint C + sint D) \<longrightarrow>
      (\<exists>Result s'. calculateTotal A B C D s = Inr (Result, s') \<and>
         sint Result = sint A + sint B + sint C + sint D)) \<and>
   (\<exists>s'. calculateTotal 1 2 3 4 s = Inr (10, s')) \<and>
   (\<exists>s'. calculateTotal 30 30 30 30 s = Inr (120, s'))"
proof (intro conjI impI)
  assume "in_int_range (sint A + sint B) \<and> in_int_range (sint A + sint B + sint C) \<and>
    in_int_range (sint A + sint B + sint C + sint D)"
  then show "\<exists>Result s'. calculateTotal A B C D s = Inr (Result, s') \<and>
         sint Result = sint A + sint B + sint C + sint D"
    using calculateTotal_in_range(1) [of A B C D s] calculateTotal_in_range(2) [of A B C D]
    by blast
next
  show "\<exists>s'. calculateTotal 1 2 3 4 s = Inr (10, s')"
    by (simp add: calculateTotal_1_2_3_4)
next
  show "\<exists>s'. calculateTotal 30 30 30 30 s = Inr (120, s')"
    by (simp add: calculateTotal_30s)
qed

theorem calculateTotal_returns_sum_witness:
  "in_int_range (sint (7 :: cint) + sint (- 9 :: cint)) \<and>
   in_int_range (sint (7 :: cint) + sint (- 9 :: cint) + sint (40 :: cint)) \<and>
   in_int_range (sint (7 :: cint) + sint (- 9 :: cint) + sint (40 :: cint) + sint (70 :: cint)) \<and>
   (\<exists>Result s'. calculateTotal 7 (- 9) 40 70 initial_globals = Inr (Result, s') \<and>
      sint Result = 108)"
  using calculateTotal_returns_sum [of 7 "- 9" 40 70 initial_globals]
  by (simp add: in_int_range_def INT_MIN_def INT_MAX_def)

text \<open>
  C4 (as stated: the large-total line is written if and only if the sum of the four
  arguments exceeds 100). At \<open>(2147483647, 2147483647, 0, 0)\<close> the sum exceeds 100, the
  addition overflows and no line is written.
\<close>

theorem calculateTotal_report_counterexample:
  "100 < sint (2147483647 :: cint) + sint (2147483647 :: cint) + sint (0 :: cint) + sint (0 :: cint) \<and>
   calculateTotal 2147483647 2147483647 0 0 initial_globals = Inl SignedOverflow"
  by (simp add: calculateTotal_def add_int_def int_result_def in_int_range_def
      INT_MIN_def INT_MAX_def)

text \<open>
  C4 (amended): whenever the partial sums \<open>A + B\<close>, \<open>A + B + C\<close> and \<open>A + B + C + D\<close> stay
  in the range of \<^verbatim>\<open>int\<close>, calculateTotal appends the line
  \<^verbatim>\<open>Large total: <sum>\<close> to the output if and only if the sum exceeds 100, and
  otherwise leaves the output as it was: nothing is written on \<open>(1, 2, 3, 4)\<close>, and
  \<^verbatim>\<open>Large total: 120\<close> is written on \<open>(30, 30, 30, 30)\<close>.
\<close>

theorem calculateTotal_report_iff:
  "(in_int_range (sint A + sint B) \<and> in_int_range (sint A + sint B + sint C) \<and>
    in_int_range (sint A + sint B + sint C + sint D) \<longrightarrow>
      (\<exists>Result s'. calculateTotal A B C D s = Inr (Result, s') \<and>
         (cout s' = cout s @ [[Str ''Large total: '', Num (sint A + sint B + sint C + sint D)]]
            \<longleftrightarrow> 100 < sint A + sint B + sint C + sint D) \<and>
         (cout s' = cout s \<longleftrightarrow> sint A + sint B + sint C + sint D \<le> 100))) \<and>
   calculateTotal 1 2 3 4 s = Inr (10, s) \<and>
   calculateTotal 30 30 30 30 s = Inr (120, s\<lparr>cout := cout s @ [[Str ''Large total: '', Num 120]]\<rparr>)"
proof (intro conjI impI)
  assume "in_int_range (sint A + sint B) \<and> in_int_range (sint A + sint B + sint C) \<and>
    in_int_range (sint A + sint B + sint C + sint D)"
  then show "\<exists>Result s'. calculateTotal A B C D s = Inr (Result, s') \<and>
         (cout s' = cout s @ [[Str ''Large total: '', Num (sint A + sint B + sint C + sint D)]]
            \<longleftrightarrow> 100 < sint A + sint B + sint C + sint D) \<and>
         (cout s' = cout s \<longleftrightarrow> sint A + sint B + sint C + sint D \<le> 100)"
    using calculateTotal_in_range(1) [of A B C D s] by (auto simp: print_line_def)
next
  show "calculateTotal 1 2 3 4 s = Inr (10, s)"
    by (rule calculateTotal_1_2_3_4)
next
  show "calculateTotal 30 30 30 30 s = Inr (120, s\<lparr>cout := cout s @ [[Str ''Large total: '', Num 120]]\<rparr>)"
    by (simp add: calculateTotal_30s print_line_def)
qed

theorem calculateTotal_report_iff_witness:
  "in_int_range (sint (50 :: cint) + sint (50 :: cint)) \<and>
   in_int_range (sint (50 :: cint) + sint (50 :: cint) + sint (1 :: cint)) \<and>
   in_int_range (sint (50 :: cint) + sint (50 :: cint) + sint (1 :: cint) + sint (0 :: cint)) \<and>
   (\<exists>Result s'. calculateTotal 50 50 1 0 initial_globals = Inr (Result, s') \<and>
      cout s' = [[Str ''Large total: '', Num 101]])"
  using calculateTotal_report_iff [of 50 50 1 0 initial_globals]
  by (auto simp add: in_int_range_def INT_MIN_def INT_MAX_def initial_globals_def)

section \<open>Properties of data_manager\<close>

lemma store_int_live:
  "p < length h \<Longrightarrow> h ! p = Live xs \<Longrightarrow> 0 \<le> i \<Longrightarrow> i < int (length xs) \<Longrightarrow>
     store_int h p i v = Inr (h[p := Live (xs[nat i := Some v])])"
  by (simp add: store_int_def)

lemma size_t_of_int_nonneg: "0 \<le> sint (i :: cint) \<Longrightarrow> size_t_of_int i = nat (sint i)"
  using sint_less [of i] by (simp add: size_t_of_int_def)

text \<open>
  The loop of the constructor, started at \<open>i\<close> on an array of \<open>sz\<close> cells with
  \<open>sz \<le> 2 ^ 30\<close>, keeps the cells below \<open>i\<close> and stores \<open>k * 2\<close> in every cell \<open>k\<close> from
  \<open>i\<close> on.
\<close>

lemma data_manager_fill_spec:
  assumes "p < length h" and "h ! p = Live xs" and "length xs = nat (sint sz)"
    and "0 \<le> sint i" and "sint sz \<le> 2 ^ 30"
  shows "data_manager_fill p sz i h =
           Inr (h[p := Live (take (nat (sint i)) xs @
                             map (\<lambda>k. Some (word_of_nat k * 2)) [nat (sint i)..<nat (sint sz)])])"
  using assms
proof (induction p sz i h arbitrary: xs rule: data_manager_fill.induct)
  case (1 p sz i h)
  show ?case
  proof (cases "sint i < sint sz")
    case False
    then have "nat (sint sz) \<le> nat (sint i)" by simp
    then show ?thesis
      using False "1.prems" data_manager_fill.simps [of p sz i h]
      by (simp add: list_update_same_conv [THEN iffD2])
  next
    case True
    let ?j = "nat (sint i)"
    let ?xs' = "xs[?j := Some (i * 2)]"
    let ?h' = "h[p := Live ?xs']"
    have rng: "in_int_range (sint i * sint (2 :: cint))"
      using True "1.prems"(4,5) by (simp add: in_int_range_def INT_MIN_def INT_MAX_def)
    have mul: "mul_int i 2 = Inr (i * 2)"
      using mul_int_in_range [OF rng] .
    have jlt: "?j < length xs"
      using True "1.prems"(3,4) by simp
    have st: "store_int h p (sint i) (i * 2) = Inr ?h'"
      using store_int_live [of p h xs "sint i" "i * 2"] "1.prems" jlt by simp
    have s1: "sint (i + 1) = sint i + 1"
      using True by (rule sint_succ_less)
    have ih: "data_manager_fill p sz (i + 1) ?h' =
        Inr (?h'[p := Live (take (nat (sint (i + 1))) ?xs' @
               map (\<lambda>k. Some (word_of_nat k * 2)) [nat (sint (i + 1))..<nat (sint sz)])])"
      using "1.IH" [OF True mul st, of ?xs'] "1.prems" s1 by simp
    have tk: "take (nat (sint (i + 1))) ?xs' = take ?j xs @ [Some (i * 2)]"
      using jlt "1.prems"(4) s1
      by (simp add: nat_add_distrib take_Suc_conv_app_nth)
    have up: "[?j..<nat (sint sz)] = ?j # [nat (sint (i + 1))..<nat (sint sz)]"
      using True "1.prems"(4) s1 by (simp add: upt_conv_Cons nat_add_distrib)
    have wi: "word_of_nat ?j = i"
      using "1.prems"(4) by (rule word_of_nat_sint)
    show ?thesis
      using data_manager_fill.simps [of p sz i h] True mul st ih tk up wi
      by simp
  qed
qed

text \<open>On a larger array the loop reaches \<open>i = 2 ^ 30\<close>, where \<open>i * 2\<close> overflows.\<close>

lemma data_manager_fill_overflow:
  assumes "p < length h" and "h ! p = Live xs" and "length xs = nat (sint sz)"
    and "0 \<le> sint i" and "sint i \<le> 2 ^ 30" and "2 ^ 30 < sint sz"
  shows "data_manager_fill p sz i h = Inl SignedOverflow"
  using assms
proof (induction p sz i h arbitrary: xs rule: data_manager_fill.induct)
  case (1 p sz i h)
  have lt: "sint i < sint sz"
    using "1.prems"(5,6) by simp
  show ?case
  proof (cases "sint i = 2 ^ 30")
    case True
    then have "\<not> in_int_range (sint i * sint (2 :: cint))"
      by (simp add: in_int_range_def INT_MAX_def)
    then have "mul_int i 2 = Inl SignedOverflow"
      by (rule mul_int_overflow)
    then show ?thesis
      using data_manager_fill.simps [of p sz i h] lt by simp
  next
    case False
    let ?xs' = "xs[nat (sint i) := Some (i * 2)]"
    let ?h' = "h[p := Live ?xs']"
    have rng: "in_int_range (sint i * sint (2 :: cint))"
      using False "1.prems"(4,5) by (simp add: in_int_range_def INT_MIN_def INT_MAX_def)
    have mul: "mul_int i 2 = Inr (i * 2)"
      using mul_int_in_range [OF rng] .
    have st: "store_int h p (sint i) (i * 2) = Inr ?h'"
      using store_int_live [of p h xs "sint i" "i * 2"] "1.prems" lt by simp
    have s1: "sint (i + 1) = sint i + 1"
      using lt by (rule sint_succ_less)
    have "data_manager_fill p sz (i + 1) ?h' = Inl SignedOverflow"
      using "1.IH" [OF lt mul st, of ?xs'] "1.prems" s1 False by simp
    then show ?thesis
      using data_manager_fill.simps [of p sz i h] lt mul st by simp
  qed
qed

lemma data_manager_overflow:
  assumes "2 ^ 30 < sint sz"
  shows "data_manager sz s = Inl SignedOverflow"
proof -
  let ?h = "free_store s"
  have "data_manager_fill (length ?h) sz 0 (?h @ [Live (replicate (nat (sint sz)) None)])
          = Inl SignedOverflow"
    using assms
    by (intro data_manager_fill_overflow [where xs = "replicate (nat (sint sz)) None"]) simp_all
  then show ?thesis
    using assms by (simp add: data_manager_def new_int_array_def)
qed

lemma data_manager_negative: "sint sz < 0 \<Longrightarrow> data_manager sz s = Inl BadArrayNewLength"
  by (simp add: data_manager_def new_int_array_def)

lemma data_manager_in_range:
  assumes "0 \<le> sint sz" and "sint sz \<le> 2 ^ 30"
  shows "data_manager sz s =
           Inr (\<lparr>rawBuffer = length (free_store s), size_field = nat (sint sz)\<rparr>,
                s\<lparr>free_store := free_store s @
                     [Live (map (\<lambda>k. Some (word_of_nat k * 2)) [0..<nat (sint sz)])]\<rparr>)"
proof -
  let ?h = "free_store s"
  have "data_manager_fill (length ?h) sz 0 (?h @ [Live (replicate (nat (sint sz)) None)])
          = Inr (?h @ [Live (map (\<lambda>k. Some (word_of_nat k * 2)) [0..<nat (sint sz)])])"
    using assms data_manager_fill_spec [of "length ?h" "?h @ [Live (replicate (nat (sint sz)) None)]"
        "replicate (nat (sint sz)) None" sz 0]
    by simp
  moreover have "size_t_of_int sz = nat (sint sz)"
    using assms(1) by (rule size_t_of_int_nonneg)
  ultimately show ?thesis
    using assms by (simp add: data_manager_def new_int_array_def)
qed

lemma PrintData_loop_spec:
  assumes "rawBuffer dm < length (free_store s)"
    and "free_store s ! rawBuffer dm = Live (map (\<lambda>k. Some (word_of_nat k * 2)) [0..<size_field dm])"
    and "size_field dm \<le> 2 ^ 30" and "0 \<le> sint i" and "nat (sint i) \<le> size_field dm"
  shows "PrintData_loop dm i s =
           Inr (s\<lparr>cout := cout s @
                  map (\<lambda>k. [Str ''Val: '', Num (2 * int k)]) [nat (sint i)..<size_field dm]\<rparr>)"
  using assms
proof (induction dm i s rule: PrintData_loop.induct)
  case (1 dm i s)
  let ?j = "nat (sint i)"
  let ?s' = "print_line [Str ''Val: '', Num (sint (i * 2))] s"
  have sz: "size_t_of_int i = ?j"
    using "1.prems"(4) by (rule size_t_of_int_nonneg)
  show ?case
  proof (cases "?j < size_field dm")
    case False
    then show ?thesis
      using PrintData_loop.simps [of dm i s] sz "1.prems"(5) by simp
  next
    case True
    have wi: "word_of_nat ?j = i"
      using "1.prems"(4) by (rule word_of_nat_sint)
    have ld: "load_int (free_store s) (rawBuffer dm) (sint i) = Inr (i * 2)"
      using True "1.prems"(1,2,4) wi by (simp add: load_int_def)
    have rng2: "in_int_range (sint i * sint (2 :: cint))"
      using True "1.prems"(3,4) by (simp add: in_int_range_def INT_MIN_def INT_MAX_def)
    have val: "sint (i * 2) = 2 * int ?j"
      using sint_mult_in_range [OF rng2] "1.prems"(4) by simp
    have rng1: "in_int_range (sint i + sint (1 :: cint))"
      using True "1.prems"(3,4) by (simp add: in_int_range_def INT_MIN_def INT_MAX_def)
    have inc: "add_int i 1 = Inr (i + 1)"
      using add_int_in_range [OF rng1] .
    have s1: "sint (i + 1) = sint i + 1"
      using sint_add_in_range [OF rng1] by simp
    have lt: "size_t_of_int i < size_field dm"
      using True sz by simp
    have ih: "PrintData_loop dm (i + 1) ?s' =
        Inr (?s'\<lparr>cout := cout ?s' @
               map (\<lambda>k. [Str ''Val: '', Num (2 * int k)]) [nat (sint (i + 1))..<size_field dm]\<rparr>)"
      using "1.IH" [OF lt ld inc] "1.prems" True s1 by (simp add: print_line_def)
    have up: "[?j..<size_field dm] = ?j # [nat (sint (i + 1))..<size_field dm]"
      using True "1.prems"(4) s1 by (simp add: upt_conv_Cons nat_add_distrib)
    show ?thesis
      using PrintData_loop.simps [of dm i s] lt ld inc ih up val by (simp add: print_line_def)
  qed
qed

lemma data_manager_then_PrintData:
  assumes "0 \<le> sint sz" and "sint sz \<le> 2 ^ 30" and "data_manager sz s = Inr (dm, s1)"
  shows "PrintData dm s1 =
           Inr (s1\<lparr>cout := cout s @ map (\<lambda>i. [Str ''Val: '', Num (2 * int i)]) [0..<nat (sint sz)]\<rparr>)"
proof -
  have dm: "dm = \<lparr>rawBuffer = length (free_store s), size_field = nat (sint sz)\<rparr>"
    and s1: "s1 = s\<lparr>free_store := free_store s @
                     [Live (map (\<lambda>k. Some (word_of_nat k * 2)) [0..<nat (sint sz)])]\<rparr>"
    using data_manager_in_range [OF assms(1,2), of s] assms(3) by simp_all
  have "PrintData_loop dm 0 s1 =
          Inr (s1\<lparr>cout := cout s1 @
                 map (\<lambda>k. [Str ''Val: '', Num (2 * int k)]) [nat (sint (0 :: cint))..<size_field dm]\<rparr>)"
    using assms(1,2) by (intro PrintData_loop_spec) (simp_all add: dm s1)
  then show ?thesis
    by (simp add: PrintData_def dm s1)
qed

text \<open>
  C1 (as stated: for every size greater than 0, the object constructed with that size
  holds \<open>i * 2\<close> at every index \<open>i\<close> below the size). The elements are of type
  \<^verbatim>\<open>int\<close>: with \<open>sz = 2 ^ 30 + 1\<close> the element at index \<open>2 ^ 30\<close> would be \<open>2 ^ 31\<close>,
  which no \<^verbatim>\<open>int\<close> equals; the product \<open>i * 2\<close> overflows there and the construction
  does not complete.
\<close>

theorem data_manager_size_counterexample:
  "0 < sint (1073741825 :: cint) \<and>
   data_manager 1073741825 initial_globals = Inl SignedOverflow"
  using data_manager_overflow [of 1073741825 initial_globals] by simp

text \<open>
  C1 (amended): for every size \<open>sz\<close> with \<open>0 < sz \<le> 2 ^ 30\<close>, constructing a
  data_manager with that size succeeds, and PrintData on it then writes exactly \<open>sz\<close>
  lines, the line at index \<open>i\<close> showing the value \<open>i * 2\<close>, for every \<open>i\<close> from 0 to
  \<open>sz - 1\<close>.
\<close>

theorem data_manager_PrintData:
  assumes "0 < sint sz" and "sint sz \<le> 2 ^ 30"
  shows "\<exists>dm s1 s2. data_manager sz s = Inr (dm, s1) \<and> size_field dm = nat (sint sz) \<and>
           PrintData dm s1 = Inr s2 \<and>
           cout s2 = cout s @ map (\<lambda>i. [Str ''Val: '', Num (2 * int i)]) [0..<nat (sint sz)] \<and>
           length (cout s2) = length (cout s) + nat (sint sz)"
proof -
  let ?dm = "\<lparr>rawBuffer = length (free_store s), size_field = nat (sint sz)\<rparr>"
  let ?s1 = "s\<lparr>free_store := free_store s @
                     [Live (map (\<lambda>k. Some (word_of_nat k * 2)) [0..<nat (sint sz)])]\<rparr>"
  have nn: "0 \<le> sint sz" using assms(1) by simp
  have c: "data_manager sz s = Inr (?dm, ?s1)"
    using data_manager_in_range [OF nn assms(2)] .
  have p: "PrintData ?dm ?s1 =
      Inr (?s1\<lparr>cout := cout s @ map (\<lambda>i. [Str ''Val: '', Num (2 * int i)]) [0..<nat (sint sz)]\<rparr>)"
    using data_manager_then_PrintData [OF nn assms(2) c] .
  show ?thesis
    using c p by simp
qed

theorem data_manager_PrintData_witness:
  "0 < sint (3 :: cint) \<and> sint (3 :: cint) \<le> 2 ^ 30 \<and>
   (\<exists>dm s1 s2. data_manager 3 initial_globals = Inr (dm, s1) \<and> size_field dm = 3 \<and>
      PrintData dm s1 = Inr s2 \<and>
      cout s2 = [[Str ''Val: '', Num 0], [Str ''Val: '', Num 2], [Str ''Val: '', Num 4]])"
  using data_manager_PrintData [of 3 initial_globals]
  by (auto simp add: initial_globals_def upt_rec)

section \<open>The storage of data_manager\<close>

lemma live_blocks_append: "live_blocks (h @ [Live xs]) = live_blocks h + 1"
  by (simp add: live_blocks_def)

lemma scoped_data_manager_live:
  assumes "0 \<le> sint sz" and "sint sz \<le> 2 ^ 30"
  shows "\<exists>s'. scoped_data_manager sz s = Inr s' \<and>
           live_blocks (free_store s') = live_blocks (free_store s) + 1"
  using data_manager_in_range [OF assms, of s]
  by (simp add: scoped_data_manager_def data_manager_dtor_def live_blocks_append)

lemma repeat_scoped_live:
  assumes "0 \<le> sint sz" and "sint sz \<le> 2 ^ 30"
  shows "\<exists>s'. repeat_scoped n sz s = Inr s' \<and>
           live_blocks (free_store s') = live_blocks (free_store s) + n"
proof (induction n arbitrary: s)
  case 0
  show ?case by simp
next
  case (Suc n)
  obtain s1 where s1: "scoped_data_manager sz s = Inr s1"
    "live_blocks (free_store s1) = live_blocks (free_store s) + 1"
    using scoped_data_manager_live [OF assms, of s] by blast
  obtain s2 where s2: "repeat_scoped n sz s1 = Inr s2"
    "live_blocks (free_store s2) = live_blocks (free_store s1) + n"
    using Suc.IH [of s1] by blast
  show ?case
    using s1 s2 by simp
qed

text \<open>
  What the missing \<^verbatim>\<open>delete[] dm.rawBuffer\<close> would do: after the construction it
  releases the array, and a second one is an error.
\<close>

lemma delete_after_construction:
  assumes "0 \<le> sint sz" and "sint sz \<le> 2 ^ 30" and "data_manager sz s = Inr (dm, s1)"
  shows "\<exists>h. delete_int_array (free_store s1) (rawBuffer dm) = Inr h \<and>
           live_blocks h = live_blocks (free_store s) \<and>
           delete_int_array h (rawBuffer dm) = Inl InvalidDelete"
proof -
  have dm: "rawBuffer dm = length (free_store s)"
    and s1: "free_store s1 = free_store s @
               [Live (map (\<lambda>k. Some (word_of_nat k * 2)) [0..<nat (sint sz)])]"
    using data_manager_in_range [OF assms(1,2), of s] assms(3) by auto
  show ?thesis
    by (simp add: dm s1 delete_int_array_def live_blocks_def)
qed

section \<open>Steps\<close>

lemma WorkerThread_step_cases [consumes 1, case_names LoopTest Lock Increment Overflow Status LoadCheck Unlock]:
  assumes "WorkerThread_step p w g = Some (w', g')"
  obtains
    (LoopTest) i where "pc w = LoopTest i"
      and "w' = w\<lparr>pc := if sint i < maxCount then Lock i else Returned\<rparr>" and "g' = g"
  | (Lock) i where "pc w = Lock i" and "globalMutex g = None"
      and "w' = w\<lparr>pc := Increment i\<rparr>" and "g' = g\<lparr>globalMutex := Some p\<rparr>"
  | (Increment) i v where "pc w = Increment i" and "add_int (Global_count g) 1 = Inr v"
      and "w' = w\<lparr>pc := Status i\<rparr>" and "g' = g\<lparr>Global_count := v\<rparr>"
  | (Overflow) i e where "pc w = Increment i" and "add_int (Global_count g) 1 = Inl e"
      and "w' = w\<lparr>pc := Undefined\<rparr>" and "g' = g"
  | (Status) i where "pc w = Status i"
      and "w' = w\<lparr>pc := LoadCheck i\<rparr>" and "g' = print_line (status_line (ID w) i (cfg w)) g"
  | (LoadCheck) i where "pc w = LoadCheck i"
      and "w' = w\<lparr>pc := Unlock i\<rparr>"
      and "g' = (if 50 < sint (Global_count g) then print_line warning_line g else g)"
  | (Unlock) i where "pc w = Unlock i"
      and "w' = w\<lparr>pc := LoopTest (i + 1)\<rparr>" and "g' = g\<lparr>globalMutex := None\<rparr>"
  using assms
  by (cases "pc w") (auto simp: WorkerThread_step_def split: if_splits sum.splits)

lemma main_step_cases [consumes 1, case_names Spawn1 Spawn2 Join1 Join2 Report Return]:
  assumes "main_step s = Some s'"
  obtains
    (Spawn1) "main_pc s = Spawn1"
      and "s' = s\<lparr>threads := (threads s)(T1 \<mapsto> \<lparr>ID = 1, cfg = main_cfg s, pc = LoopTest 0\<rparr>),
                  main_pc := Spawn2\<rparr>"
  | (Spawn2) "main_pc s = Spawn2"
      and "s' = s\<lparr>threads := (threads s)(T2 \<mapsto> \<lparr>ID = 2, cfg = main_cfg s, pc = LoopTest 0\<rparr>),
                  main_pc := Join1\<rparr>"
  | (Join1) "main_pc s = Join1" and "returned (threads s T1)" and "s' = s\<lparr>main_pc := Join2\<rparr>"
  | (Join2) "main_pc s = Join2" and "returned (threads s T2)" and "s' = s\<lparr>main_pc := Report\<rparr>"
  | (Report) "main_pc s = Report"
      and "s' = s\<lparr>shared := print_line [Str ''Global_count = '', Num (sint (Global_count (shared s)))]
                              (shared s),
                  main_pc := Return\<rparr>"
  | (Return) "main_pc s = Return"
      and "s' = s\<lparr>shared := data_manager_dtor (main_dm s) (shared s), main_pc := Exited\<rparr>"
  using assms
  by (cases "main_pc s") (auto simp: main_step_def split: if_splits)

lemma sys_step_cases [consumes 1, case_names Main Worker]:
  assumes "sys_step p s = Some s'"
  obtains
    (Main) "p = Main" and "main_step s = Some s'"
  | (Worker) w w' g where "p \<noteq> Main" and "threads s p = Some w"
      and "WorkerThread_step p w (shared s) = Some (w', g)"
      and "s' = s\<lparr>shared := g, threads := (threads s)(p \<mapsto> w')\<rparr>"
  using assms
  by (cases p) (auto simp: sys_step_def split: option.splits)

lemma exec_append: "exec (ps @ qs) s = exec qs (exec ps s)"
  by (induction ps s rule: exec.induct) (auto split: option.splits)


text \<open>A property that holds at the start and that every step preserves holds after every schedule.\<close>

lemma exec_invariant:
  assumes "P s" and "\<And>p s s'. P s \<Longrightarrow> sys_step p s = Some s' \<Longrightarrow> P s'"
  shows "P (exec ps s)"
  using assms(1)
proof (induction ps s rule: exec.induct)
  case (1 s)
  then show ?case by simp
next
  case (2 p ps s)
  then show ?case
    using assms(2) by (cases "sys_step p s") auto
qed

lemma WorkerThread_step_free_store:
  assumes "WorkerThread_step p w g = Some (w', g')"
  shows "free_store g' = free_store g"
  using assms by (cases rule: WorkerThread_step_cases) (auto simp: print_line_def)

lemma sys_step_free_store:
  assumes "sys_step p s = Some s'"
  shows "free_store (shared s') = free_store (shared s)"
  using assms
proof (cases rule: sys_step_cases)
  case Main
  from Main(2) show ?thesis
    by (cases rule: main_step_cases) (auto simp: print_line_def data_manager_dtor_def)
next
  case (Worker w w' g)
  then show ?thesis
    using WorkerThread_step_free_store by auto
qed

lemma exec_free_store: "free_store (shared (exec ps s)) = free_store (shared s)"
  by (rule exec_invariant [where P = "\<lambda>t. free_store (shared t) = free_store (shared s)"])
    (simp_all add: sys_step_free_store)

lemma main_prologue_initial: "main_prologue initial_globals = Inr program_start"
proof -
  let ?s0 = "print_line [Str ''Starting bad-style demo...''] initial_globals"
  let ?dm = "\<lparr>rawBuffer = 0, size_field = 10\<rparr>"
  let ?s1 = "?s0\<lparr>free_store := [Live (map (\<lambda>k. Some (word_of_nat k * 2)) [0..<10])]\<rparr>"
  let ?s2 = "?s1\<lparr>cout := cout ?s0 @ map (\<lambda>i. [Str ''Val: '', Num (2 * int i)]) [0..<10]\<rparr>"
  have c: "data_manager 10 ?s0 = Inr (?dm, ?s1)"
    using data_manager_in_range [of 10 ?s0] by (simp add: print_line_def initial_globals_def)
  have p: "PrintData ?dm ?s1 = Inr ?s2"
    using data_manager_then_PrintData [of 10 ?s0 ?dm ?s1] c by simp
  have "main_prologue initial_globals =
      Inr \<lparr>shared = print_line [Str ''Total: '', Num (sint (10 :: cint))] ?s2,
           main_pc = Spawn1,
           main_cfg = \<lparr>Port = 8080, HostName = ''localhost'', useSSL = True\<rparr>,
           main_dm = ?dm,
           main_nums = map (\<lambda>i. word_of_nat i * 3) [0..<20],
           main_nameToScore = [(''alice'', 90), (''bob'', 75)],
           main_total = 10,
           threads = (\<lambda>p. None)\<rparr>"
    by (simp only: main_prologue_def c p calculateTotal_1_2_3_4 sum.case prod.case)
  then show ?thesis
    by (simp add: program_start_def print_line_def initial_globals_def)
qed

lemma main_exec: "main sched = Inr (exec sched program_start)"
  by (simp add: main_def main_prologue_initial)

text \<open>
  C7 (the storage allocated at construction is released exactly once over the lifetime of
  the instance). The code releases it zero times: the class has no destructor and
  \<^verbatim>\<open>main\<close> does not call \<^verbatim>\<open>delete[]\<close>, as the comments of the source say themselves
  (\<^verbatim>\<open>// no destructor -> memory leak\<close>, \<^verbatim>\<open>// forgot: delete[] dm.rawBuffer;  // leak!\<close>).
  After 1000 blocks that construct and destroy an instance of size 10, 1000 arrays are
  still live; and whatever the schedule, the array of \<open>dm\<close> is still live in every state
  of the program, also after \<^verbatim>\<open>main\<close> has returned.
\<close>

theorem data_manager_storage_leaks:
  "(\<exists>s. repeat_scoped 1000 10 initial_globals = Inr s \<and> live_blocks (free_store s) = 1000) \<and>
   (\<forall>sched. \<exists>s. main sched = Inr s \<and> live_blocks (free_store (shared s)) = 1)"
proof
  show "\<exists>s. repeat_scoped 1000 10 initial_globals = Inr s \<and> live_blocks (free_store s) = 1000"
    using repeat_scoped_live [of 10 1000 initial_globals]
    by (simp add: initial_globals_def live_blocks_def)
  show "\<forall>sched. \<exists>s. main sched = Inr s \<and> live_blocks (free_store (shared s)) = 1"
    by (simp add: main_exec exec_free_store program_start_def live_blocks_def)
qed

section \<open>The invariants hold in every state of a run\<close>

lemma at_spawn_sys_inv: "at_spawn s \<Longrightarrow> sys_inv s"
proof -
  assume a: "at_spawn s"
  have "threads s p = None" for p
    using a by (cases p) (simp_all add: at_spawn_def)
  then show ?thesis
    using a by (simp add: sys_inv_def main_ok_def mutex_ok_def worker_ok_def at_spawn_def
        in_lock_scope_def)
qed

lemma main_ok_step:
  assumes "main_ok s" and "sys_step p s = Some s'"
  shows "main_ok s'"
  using assms(2)
proof (cases rule: sys_step_cases)
  case Main
  from Main(2) show ?thesis
    using assms(1)
    by (cases rule: main_step_cases) (auto simp: main_ok_def)
next
  case (Worker w w' g)
  have r: "pc w' = Returned" if "pc w = Returned"
    using Worker(3) that by (cases rule: WorkerThread_step_cases) auto
  show ?thesis
    using assms(1) Worker(1,2,4) r
    by (cases "main_pc s"; cases p) (auto simp: main_ok_def)
qed

lemma worker_ok_step:
  assumes "worker_ok s q" and "main_ok s" and "sys_step p s = Some s'"
  shows "worker_ok s' q"
  using assms(3)
proof (cases rule: sys_step_cases)
  case Main
  from Main(2) show ?thesis
    using assms(1,2)
    by (cases rule: main_step_cases)
      (auto simp: worker_ok_def main_ok_def maxCount_def split: option.splits)
next
  case (Worker w w' g)
  have ok: "wpc_ok (pc w') \<and> cfg w' = cfg w \<and> ID w' = ID w" if "wpc_ok (pc w)"
    using Worker(3) that
  proof (cases rule: WorkerThread_step_cases)
    case (Unlock i)
    have "sint (i + 1) = sint i + 1"
      using sint_succ_less [of i 10] that Unlock(1) by (simp add: maxCount_def)
    then show ?thesis
      using that Unlock by (simp add: maxCount_def)
  qed (auto simp: maxCount_def)
  show ?thesis
    using assms(1) Worker(2,4) ok
    by (cases "q = p") (auto simp: worker_ok_def split: option.splits)
qed

lemma mutex_okD: "mutex_ok s \<Longrightarrow> in_lock_scope s p \<longleftrightarrow> globalMutex (shared s) = Some p"
  by (simp add: mutex_ok_def)

lemma WorkerThread_step_mutex:
  assumes "WorkerThread_step p w g = Some (w', g')"
    and "holds_lock (pc w) \<longleftrightarrow> globalMutex g = Some p"
  shows "holds_lock (pc w') \<longleftrightarrow> globalMutex g' = Some p"
    and "q \<noteq> p \<Longrightarrow> globalMutex g' = Some q \<longleftrightarrow> globalMutex g = Some q"
  using assms
  by (cases rule: WorkerThread_step_cases; simp add: print_line_def; fail)+

lemma mutex_ok_step:
  assumes "mutex_ok s" and "main_ok s" and "sys_step p s = Some s'"
  shows "mutex_ok s'"
  using assms(3)
proof (cases rule: sys_step_cases)
  case Main
  have n: "globalMutex (shared s) \<noteq> Some q" if "threads s q = None" for q
    using that mutex_okD [OF assms(1), of q] by (simp add: in_lock_scope_def)
  have "in_lock_scope s' q \<longleftrightarrow> globalMutex (shared s') = Some q" for q
    using Main(2)
  proof (cases rule: main_step_cases)
    case Spawn1
    then show ?thesis
      using mutex_okD [OF assms(1), of q] assms(2) n [of T1]
      by (cases "q = T1") (simp_all add: in_lock_scope_def main_ok_def)
  next
    case Spawn2
    then show ?thesis
      using mutex_okD [OF assms(1), of q] assms(2) n [of T2]
      by (cases "q = T2") (simp_all add: in_lock_scope_def main_ok_def)
  qed (use mutex_okD [OF assms(1), of q] in
      \<open>simp_all add: in_lock_scope_def print_line_def data_manager_dtor_def\<close>)
  then show ?thesis
    by (simp add: mutex_ok_def)
next
  case (Worker w w' g)
  have me: "holds_lock (pc w) \<longleftrightarrow> globalMutex (shared s) = Some p"
    using mutex_okD [OF assms(1), of p] Worker(2) by (simp add: in_lock_scope_def)
  have "in_lock_scope s' q \<longleftrightarrow> globalMutex (shared s') = Some q" for q
  proof (cases "q = p")
    case True
    then show ?thesis
      using WorkerThread_step_mutex(1) [OF Worker(3) me] Worker(4) by (simp add: in_lock_scope_def)
  next
    case False
    then show ?thesis
      using WorkerThread_step_mutex(2) [OF Worker(3) me False] mutex_okD [OF assms(1), of q] Worker(4)
      by (simp add: in_lock_scope_def)
  qed
  then show ?thesis
    by (simp add: mutex_ok_def)
qed

lemma sys_inv_step:
  assumes "sys_inv s" and "sys_step p s = Some s'"
  shows "sys_inv s'"
  using assms main_ok_step mutex_ok_step worker_ok_step
  unfolding sys_inv_def by blast

lemma sys_inv_exec: "sys_inv s \<Longrightarrow> sys_inv (exec ps s)"
  by (rule exec_invariant [where P = sys_inv]) (auto intro: sys_inv_step)

section \<open>The value of Global_count\<close>

lemma thread_cases: "p \<noteq> Main \<Longrightarrow> p = T1 \<or> p = T2"
  by (cases p) simp_all

lemma increments_executed_update:
  assumes "p \<noteq> Main" and "threads s p = Some w"
  shows "increments_executed (s\<lparr>shared := g, threads := (threads s)(p \<mapsto> w')\<rparr>) =
           increments_executed s - incremented (pc w) + incremented (pc w')"
  using assms thread_cases [OF assms(1)]
  by (auto simp: increments_executed_def)

lemma incremented_bounds: "wpc_ok c \<Longrightarrow> 0 \<le> incremented c \<and> incremented c \<le> maxCount"
  by (cases c) (simp_all add: maxCount_def)


text \<open>
  The effect of one step of an activation on the number of increments it has executed
  and on \<open>Global_count\<close>, when the increment does not overflow.
\<close>

lemma WorkerThread_step_count:
  assumes "WorkerThread_step p w g = Some (w', g')" and "wpc_ok (pc w)"
    and "sint (Global_count g) < INT_MAX"
  shows "pc w' \<noteq> Undefined"
    and "sint (Global_count g') - sint (Global_count g) = incremented (pc w') - incremented (pc w)"
    and "incremented (pc w') = incremented (pc w) \<or> incremented (pc w') = incremented (pc w) + 1"
proof -
  have rng: "in_int_range (sint (Global_count g) + sint (1 :: cint))"
    using assms(3) in_int_range_sint [of "Global_count g"]
    by (simp add: in_int_range_def)
  have add: "add_int (Global_count g) 1 = Inr (Global_count g + 1)"
    and sadd: "sint (Global_count g + 1) = sint (Global_count g) + 1"
    using add_int_in_range [OF rng] sint_add_in_range [OF rng] by simp_all
  have "pc w' \<noteq> Undefined \<and>
    sint (Global_count g') - sint (Global_count g) = incremented (pc w') - incremented (pc w) \<and>
    (incremented (pc w') = incremented (pc w) \<or> incremented (pc w') = incremented (pc w) + 1)"
    using assms(1)
  proof (cases rule: WorkerThread_step_cases)
    case (LoopTest i)
    then show ?thesis
      using assms(2) by (auto simp: maxCount_def)
  next
    case (Unlock i)
    have "sint (i + 1) = sint i + 1"
      using sint_succ_less [of i 10] assms(2) Unlock(1) by (simp add: maxCount_def)
    then show ?thesis
      using Unlock by simp
  qed (use add sadd in \<open>auto simp: print_line_def\<close>)
  then show "pc w' \<noteq> Undefined"
    and "sint (Global_count g') - sint (Global_count g) = incremented (pc w') - incremented (pc w)"
    and "incremented (pc w') = incremented (pc w) \<or> incremented (pc w') = incremented (pc w) + 1"
    by simp_all
qed

lemma count_ok_step:
  assumes "sys_inv s" and "count_ok g0 s" and "g0 + 2 * maxCount \<le> INT_MAX"
    and "sys_step p s = Some s'"
  shows "count_ok g0 s'"
    and "sint (Global_count (shared s')) = sint (Global_count (shared s)) \<or>
         sint (Global_count (shared s')) = sint (Global_count (shared s)) + 1"
proof -
  have "count_ok g0 s' \<and>
        (sint (Global_count (shared s')) = sint (Global_count (shared s)) \<or>
         sint (Global_count (shared s')) = sint (Global_count (shared s)) + 1)"
    using assms(4)
  proof (cases rule: sys_step_cases)
    case Main
    from Main(2) show ?thesis
      using assms(1,2)
      by (cases rule: main_step_cases)
        (auto simp: count_ok_def sys_inv_def main_ok_def increments_executed_def pc_of_def
           print_line_def data_manager_dtor_def)
  next
    case (Worker w w' g)
    have wok: "wpc_ok (pc w)"
      using assms(1) Worker(2) by (auto simp: sys_inv_def worker_ok_def split: option.splits)
    have nu: "pc w \<noteq> Undefined"
      using assms(2) Worker(2) by (auto simp: count_ok_def pc_of_def)
    have le: "sint (Global_count (shared s)) < INT_MAX \<or> (\<forall>i. pc w \<noteq> Increment i)"
    proof (cases "\<exists>i. pc w = Increment i")
      case True
      then obtain i where i: "pc w = Increment i" by blast
      have "incremented (pc w) < maxCount"
        using wok i by simp
      moreover have "increments_executed s \<le> incremented (pc w) + maxCount"
      proof -
        have b: "(case threads s q of None \<Rightarrow> 0 | Some w \<Rightarrow> incremented (pc w)) \<le> maxCount" for q
          using assms(1) incremented_bounds
          by (auto simp: sys_inv_def worker_ok_def maxCount_def split: option.splits)
        show ?thesis
          using thread_cases [OF Worker(1)] Worker(2) b [of T1] b [of T2]
          by (auto simp: increments_executed_def)
      qed
      ultimately show ?thesis
        using assms(2,3) by (simp add: count_ok_def)
    next
      case False
      then show ?thesis by simp
    qed
    show ?thesis
    proof (cases "sint (Global_count (shared s)) < INT_MAX")
      case True
      note c = WorkerThread_step_count [OF Worker(3) wok True]
      have ie: "increments_executed s' = increments_executed s - incremented (pc w) + incremented (pc w')"
        using increments_executed_update [OF Worker(1,2)] Worker(4) by simp
      have und: "pc_of s' q \<noteq> Some Undefined" for q
        using assms(2) c(1) Worker(4) by (cases "q = p") (auto simp: count_ok_def pc_of_def)
      show ?thesis
        using assms(2) c(2,3) ie und Worker(4) by (auto simp: count_ok_def)
    next
      case False
      with le have ni: "\<forall>i. pc w \<noteq> Increment i" by simp
      have c: "pc w' \<noteq> Undefined \<and> Global_count g = Global_count (shared s) \<and>
               incremented (pc w') = incremented (pc w)"
        using Worker(3)
      proof (cases rule: WorkerThread_step_cases)
        case (LoopTest i)
        then show ?thesis
          using wok by (auto simp: maxCount_def)
      next
        case (Unlock i)
        have "sint (i + 1) = sint i + 1"
          using sint_succ_less [of i 10] wok Unlock(1) by (simp add: maxCount_def)
        then show ?thesis
          using Unlock by simp
      qed (use ni in \<open>auto simp: print_line_def\<close>)
      have ie: "increments_executed s' = increments_executed s - incremented (pc w) + incremented (pc w')"
        using increments_executed_update [OF Worker(1,2)] Worker(4) by simp
      have und: "pc_of s' q \<noteq> Some Undefined" for q
        using assms(2) c Worker(4) by (cases "q = p") (auto simp: count_ok_def pc_of_def)
      show ?thesis
        using assms(2) c ie und Worker(4) by (auto simp: count_ok_def)
    qed
  qed
  then show "count_ok g0 s'"
    and "sint (Global_count (shared s')) = sint (Global_count (shared s)) \<or>
         sint (Global_count (shared s')) = sint (Global_count (shared s)) + 1"
    by simp_all
qed

section \<open>Runs from the creation of the threads\<close>

lemma at_spawn_program_start: "at_spawn program_start"
  by (simp add: at_spawn_def program_start_def)

lemma at_spawn_pc_of: "at_spawn s \<Longrightarrow> pc_of s p = None"
  by (cases p) (simp_all add: at_spawn_def pc_of_def)

lemma at_spawn_count_ok:
  "at_spawn s \<Longrightarrow> count_ok (sint (Global_count (shared s))) s"
  by (simp add: at_spawn_pc_of count_ok_def) (simp add: at_spawn_def increments_executed_def)

lemma run_invariants:
  assumes "at_spawn s0" and "sint (Global_count (shared s0)) + 2 * maxCount \<le> INT_MAX"
  shows "sys_inv (exec ps s0)"
    and "count_ok (sint (Global_count (shared s0))) (exec ps s0)"
    and "sint (Global_count (shared s0)) \<le> sint (Global_count (shared (exec ps s0)))"
proof -
  let ?g0 = "sint (Global_count (shared s0))"
  let ?P = "\<lambda>t. sys_inv t \<and> count_ok ?g0 t \<and> ?g0 \<le> sint (Global_count (shared t))"
  have "?P (exec ps s0)"
  proof (rule exec_invariant [where P = ?P])
    show "?P s0"
      using assms(1) at_spawn_sys_inv at_spawn_count_ok by simp
  next
    fix p s s'
    assume P: "?P s" and st: "sys_step p s = Some s'"
    show "?P s'"
      using P sys_inv_step [OF _ st] count_ok_step [OF _ _ assms(2) st]
      by auto
  qed
  then show "sys_inv (exec ps s0)"
    and "count_ok ?g0 (exec ps s0)"
    and "?g0 \<le> sint (Global_count (shared (exec ps s0)))"
    by simp_all
qed

lemma program_invariants:
  shows "sys_inv (exec ps program_start)"
    and "count_ok 0 (exec ps program_start)"
proof -
  have g: "sint (Global_count (shared program_start)) = 0"
    by (simp add: program_start_def)
  have b: "sint (Global_count (shared program_start)) + 2 * maxCount \<le> INT_MAX"
    by (simp add: g maxCount_def INT_MAX_def)
  show "sys_inv (exec ps program_start)"
    using run_invariants(1) [OF at_spawn_program_start b] .
  show "count_ok 0 (exec ps program_start)"
    using run_invariants(2) [OF at_spawn_program_start b, of ps] g by simp
qed

lemma joined_count:
  assumes "sys_inv s" and "count_ok g0 s" and "both_joined s"
  shows "sint (Global_count (shared s)) = g0 + 2 * maxCount"
proof -
  have "returned (threads s T1) \<and> returned (threads s T2)"
    using assms(1,3) by (auto simp: sys_inv_def main_ok_def both_joined_def)
  then have "increments_executed s = 2 * maxCount"
    by (cases "threads s T1"; cases "threads s T2") (simp_all add: increments_executed_def)
  then show ?thesis
    using assms(2) by (simp add: count_ok_def)
qed

subsection \<open>Progress\<close>

lemma WorkerThread_step_position:
  assumes "WorkerThread_step p w g = Some (w', g')" and "wpc_ok (pc w)" and "pc w' \<noteq> Undefined"
  shows "position (pc w') = Suc (position (pc w))" and "position (pc w) \<le> 6 * nat maxCount"
proof -
  have "position (pc w') = Suc (position (pc w)) \<and> position (pc w) \<le> 6 * nat maxCount"
    using assms(1)
  proof (cases rule: WorkerThread_step_cases)
    case (LoopTest i)
    then show ?thesis
      using assms(2) by (auto simp: maxCount_def)
  next
    case (Unlock i)
    have "sint (i + 1) = sint i + 1"
      using sint_succ_less [of i 10] assms(2) Unlock(1) by (simp add: maxCount_def)
    moreover have "nat (sint i) < 10"
      using assms(2) Unlock(1) by (simp add: maxCount_def) linarith
    ultimately show ?thesis
      using Unlock assms(2) by (simp add: maxCount_def nat_add_distrib)
  qed (use assms(2,3) in \<open>auto simp: maxCount_def\<close>)
  then show "position (pc w') = Suc (position (pc w))" and "position (pc w) \<le> 6 * nat maxCount"
    by simp_all
qed

lemma remaining_step:
  assumes "sys_inv s" and "count_ok g0 s" and "g0 + 2 * maxCount \<le> INT_MAX"
    and "sys_step p s = Some s'"
  shows "Suc (remaining s') = remaining s"
  using assms(4)
proof (cases rule: sys_step_cases)
  case Main
  from Main(2) show ?thesis
    using assms(1)
    by (cases rule: main_step_cases)
      (auto simp: remaining_def worker_remaining_def sys_inv_def main_ok_def)
next
  case (Worker w w' g)
  have wok: "wpc_ok (pc w)"
    using assms(1) Worker(2) by (auto simp: sys_inv_def worker_ok_def split: option.splits)
  have "count_ok g0 s'"
    using count_ok_step(1) [OF assms] .
  then have nu: "pc w' \<noteq> Undefined"
    using Worker(4) by (auto simp: count_ok_def pc_of_def split: if_splits)
  note pos = WorkerThread_step_position [OF Worker(3) wok nu]
  have "Suc (worker_remaining (Some w')) = worker_remaining (Some w)"
    using pos by (simp add: worker_remaining_def)
  then show ?thesis
    using thread_cases [OF Worker(1)] Worker(2,4)
    by (auto simp: remaining_def)
qed

lemma sys_step_worker:
  assumes "p \<noteq> Main" and "threads s p = Some w" and "WorkerThread_step p w (shared s) = Some (w', g)"
  shows "sys_step p s = Some (s\<lparr>shared := g, threads := (threads s)(p \<mapsto> w')\<rparr>)"
  using assms by (cases p) (simp_all add: sys_step_def)

lemma worker_can_step:
  assumes "pc w \<noteq> Returned" and "pc w \<noteq> Undefined" and "\<forall>i. pc w \<noteq> Lock i"
  shows "\<exists>r. WorkerThread_step p w g = Some r"
  using assms
  by (cases "pc w") (auto simp: WorkerThread_step_def split: sum.splits)

lemma worker_in_scope_can_step:
  assumes "holds_lock (pc w)" and "pc w \<noteq> Undefined"
  shows "\<exists>r. WorkerThread_step p w g = Some r"
  using assms by (intro worker_can_step) auto

text \<open>
  A thread that has been created and has not returned can take a step, or a thread
  inside the scope of its lock can.
\<close>

lemma thread_progress:
  assumes "sys_inv s" and "count_ok g0 s" and "threads s p = Some w" and "pc w \<noteq> Returned"
    and "p \<noteq> Main"
  shows "\<exists>q s'. sys_step q s = Some s'"
proof (cases "\<exists>i. pc w = Lock i \<and> globalMutex (shared s) \<noteq> None")
  case True
  then obtain i q where i: "pc w = Lock i" and q: "globalMutex (shared s) = Some q"
    by auto
  have sc: "in_lock_scope s q"
    using assms(1) q mutex_okD [of s q] by (simp add: sys_inv_def)
  then obtain v where v: "threads s q = Some v" "holds_lock (pc v)"
    by (auto simp: in_lock_scope_def split: option.splits)
  have qm: "q \<noteq> Main"
    using assms(1) v(1) by (auto simp: sys_inv_def main_ok_def)
  have "pc v \<noteq> Undefined"
    using assms(2) v(1) by (auto simp: count_ok_def pc_of_def)
  then obtain r where "WorkerThread_step q v (shared s) = Some r"
    using worker_in_scope_can_step [OF v(2)] by blast
  then show ?thesis
    using sys_step_worker [OF qm v(1)] by (cases r) blast
next
  case False
  have nu: "pc w \<noteq> Undefined"
    using assms(2,3) by (auto simp: count_ok_def pc_of_def)
  have "\<exists>r. WorkerThread_step p w (shared s) = Some r"
  proof (cases "\<exists>i. pc w = Lock i")
    case True
    then show ?thesis
      using False by (auto simp: WorkerThread_step_def)
  next
    case False
    then show ?thesis
      using worker_can_step [OF assms(4) nu] by blast
  qed
  then obtain r where "WorkerThread_step p w (shared s) = Some r" by blast
  then show ?thesis
    using sys_step_worker [OF assms(5,3)] by (cases r) blast
qed

lemma no_deadlock:
  assumes "sys_inv s" and "count_ok g0 s" and "main_pc s \<noteq> Exited"
  shows "\<exists>q s'. sys_step q s = Some s'"
proof -
  have m: "\<exists>s'. sys_step Main s = Some s'" if "\<exists>s'. main_step s = Some s'"
    using that by (simp add: sys_step_def)
  show ?thesis
  proof (cases "main_pc s")
    case Join1
    show ?thesis
    proof (cases "returned (threads s T1)")
      case True
      then show ?thesis
        using Join1 m by (auto simp: main_step_def)
    next
      case False
      then obtain w where "threads s T1 = Some w" "pc w \<noteq> Returned"
        using assms(1) Join1 by (cases "threads s T1") (auto simp: sys_inv_def main_ok_def)
      then show ?thesis
        using thread_progress [OF assms(1,2), of T1 w] by simp
    qed
  next
    case Join2
    show ?thesis
    proof (cases "returned (threads s T2)")
      case True
      then show ?thesis
        using Join2 m by (auto simp: main_step_def)
    next
      case False
      then obtain w where "threads s T2 = Some w" "pc w \<noteq> Returned"
        using assms(1) Join2 by (cases "threads s T2") (auto simp: sys_inv_def main_ok_def)
      then show ?thesis
        using thread_progress [OF assms(1,2), of T2 w] by simp
    qed
  qed (use assms(3) m in \<open>auto simp: main_step_def\<close>)
qed

text \<open>From every state of a run, some schedule leads to the return of \<^verbatim>\<open>main\<close>.\<close>

lemma can_finish:
  assumes "sys_inv s" and "count_ok g0 s" and "g0 + 2 * maxCount \<le> INT_MAX"
  shows "\<exists>ps. main_pc (exec ps s) = Exited"
  using assms(1,2)
proof (induction "remaining s" arbitrary: s rule: less_induct)
  case less
  show ?case
  proof (cases "main_pc s = Exited")
    case True
    then have "main_pc (exec [] s) = Exited" by simp
    then show ?thesis by blast
  next
    case False
    then obtain q s' where st: "sys_step q s = Some s'"
      using no_deadlock [OF less.prems] by blast
    have "remaining s' < remaining s"
      using remaining_step [OF less.prems assms(3) st] by simp
    moreover have "sys_inv s'" "count_ok g0 s'"
      using sys_inv_step [OF less.prems(1) st] count_ok_step(1) [OF less.prems assms(3) st]
      by simp_all
    ultimately obtain ps where "main_pc (exec ps s') = Exited"
      using less.hyps by blast
    then have "main_pc (exec (q # ps) s) = Exited"
      using st by simp
    then show ?thesis by blast
  qed
qed

text \<open>A run takes at most as many steps as remain at its start.\<close>

lemma run_length:
  assumes "sys_inv s" and "count_ok g0 s" and "g0 + 2 * maxCount \<le> INT_MAX"
  shows "length (run ps s) + remaining (exec ps s) = remaining s"
  using assms(1,2)
proof (induction ps s rule: run.induct)
  case (1 s)
  show ?case by simp
next
  case (2 p ps s)
  show ?case
  proof (cases "sys_step p s")
    case None
    then show ?thesis
      using 2 by simp
  next
    case (Some s')
    have "sys_inv s'" "count_ok g0 s'"
      using sys_inv_step [OF "2.prems"(1) Some] count_ok_step(1) [OF "2.prems" assms(3) Some]
      by simp_all
    then show ?thesis
      using "2.IH"(2) [OF Some] remaining_step [OF "2.prems" assms(3) Some] Some by simp
  qed
qed

section \<open>Steps of a run\<close>

text \<open>Every step listed by \<open>run\<close> is a step of the program from a state of the run.\<close>

lemma run_steps:
  assumes "(p, a, b) \<in> set (run ps s)"
  shows "\<exists>qs. a = exec qs s \<and> sys_step p a = Some b"
  using assms
proof (induction ps s rule: run.induct)
  case (1 s)
  then show ?case by simp
next
  case (2 q ps s)
  show ?case
  proof (cases "sys_step q s")
    case None
    then obtain qs where qs: "a = exec qs s" "sys_step p a = Some b"
      using 2 by auto
    have "a = exec (q # qs) s"
      using None qs(1) by simp
    then show ?thesis
      using qs(2) by blast
  next
    case (Some s')
    show ?thesis
    proof (cases "(p, a, b) = (q, s, s')")
      case True
      then have "a = exec [] s \<and> sys_step p a = Some b"
        using Some by simp
      then show ?thesis by blast
    next
      case False
      then obtain qs where qs: "a = exec qs s'" "sys_step p a = Some b"
        using 2 Some by auto
      have "a = exec (q # qs) s"
        using Some qs(1) by simp
      then show ?thesis
        using qs(2) by blast
    qed
  qed
qed

lemma completed_incremented:
  "completed c \<le> incremented c \<and> incremented c \<le> completed c + 1 \<and>
   (\<not> holds_lock c \<longrightarrow> incremented c = completed c)"
  by (cases c) simp_all

lemma iterations_completed_bounds:
  assumes "sys_inv s"
  shows "iterations_completed s \<le> increments_executed s"
    and "increments_executed s \<le> iterations_completed s + 1"
    and "globalMutex (shared s) = None \<Longrightarrow> increments_executed s = iterations_completed s"
proof -
  let ?c = "\<lambda>q. case threads s q of None \<Rightarrow> 0 | Some w \<Rightarrow> completed (pc w)"
  let ?i = "\<lambda>q. case threads s q of None \<Rightarrow> 0 | Some w \<Rightarrow> incremented (pc w)"
  have m: "in_lock_scope s q \<longleftrightarrow> globalMutex (shared s) = Some q" for q
    using assms mutex_okD [of s q] by (simp add: sys_inv_def)
  have b: "?c q \<le> ?i q \<and> ?i q \<le> ?c q + 1 \<and> (\<not> in_lock_scope s q \<longrightarrow> ?i q = ?c q)" for q
    using completed_incremented by (auto simp: in_lock_scope_def split: option.splits)
  have one: "\<not> in_lock_scope s T1 \<or> \<not> in_lock_scope s T2"
    using m [of T1] m [of T2] by auto
  show "iterations_completed s \<le> increments_executed s"
    using b [of T1] b [of T2] by (simp add: iterations_completed_def increments_executed_def)
  show "increments_executed s \<le> iterations_completed s + 1"
    using b [of T1] b [of T2] one
    by (auto simp: iterations_completed_def increments_executed_def)
  show "increments_executed s = iterations_completed s" if "globalMutex (shared s) = None"
    using b [of T1] b [of T2] m [of T1] m [of T2] that
    by (simp add: iterations_completed_def increments_executed_def)
qed

text \<open>Only the increment of an activation changes \<open>Global_count\<close>.\<close>

lemma sys_step_changes_count:
  assumes "sys_step p s = Some s'" and "Global_count (shared s') \<noteq> Global_count (shared s)"
  shows "p \<noteq> Main \<and> (\<exists>i. pc_of s p = Some (Increment i) \<and> pc_of s' p = Some (Status i))"
  using assms(1)
proof (cases rule: sys_step_cases)
  case Main
  from Main(2) show ?thesis
    using assms(2)
    by (cases rule: main_step_cases) (auto simp: print_line_def data_manager_dtor_def)
next
  case (Worker w w' g)
  from Worker(3) show ?thesis
    using assms(2) Worker(1,2,4)
    by (cases rule: WorkerThread_step_cases) (auto simp: print_line_def pc_of_def split: if_splits)
qed

section \<open>Further facts about steps\<close>

lemma count_mono:
  assumes "sys_inv s" and "count_ok g0 s" and "g0 + 2 * maxCount \<le> INT_MAX"
  shows "sint (Global_count (shared s)) \<le> sint (Global_count (shared (exec ps s)))"
proof -
  let ?P = "\<lambda>t. sys_inv t \<and> count_ok g0 t \<and>
                 sint (Global_count (shared s)) \<le> sint (Global_count (shared t))"
  have "?P (exec ps s)"
  proof (rule exec_invariant [where P = ?P])
    show "?P s"
      using assms(1,2) by simp
  next
    fix p t t'
    assume P: "?P t" and st: "sys_step p t = Some t'"
    show "?P t'"
      using P sys_inv_step [OF _ st] count_ok_step [OF _ _ assms(3) st]
      by auto
  qed
  then show ?thesis by simp
qed

text \<open>A step that writes the warning line is the load check of an activation.\<close>

lemma warning_step:
  assumes "sys_step p s = Some s'" and "cout (shared s') = cout (shared s) @ [warning_line]"
  shows "p \<noteq> Main \<and>
         (\<exists>i. pc_of s p = Some (LoadCheck i) \<and> pc_of s' p = Some (Unlock i) \<and>
              50 < sint (Global_count (shared s)) \<and>
              globalMutex (shared s') = globalMutex (shared s))"
  using assms(1)
proof (cases rule: sys_step_cases)
  case Main
  from Main(2) show ?thesis
    using assms(2)
    by (cases rule: main_step_cases)
      (auto simp: print_line_def data_manager_dtor_def warning_line_def)
next
  case (Worker w w' g)
  from Worker(3) show ?thesis
    using assms(2) Worker(1,2,4)
    by (cases rule: WorkerThread_step_cases)
      (auto simp: print_line_def pc_of_def warning_line_def status_line_def split: if_splits)
qed

lemma holds_lock_mutex:
  assumes "sys_inv s" and "pc_of s p = Some c" and "holds_lock c"
  shows "globalMutex (shared s) = Some p"
  using assms mutex_okD [of s p]
  by (auto simp: sys_inv_def in_lock_scope_def pc_of_def)

section \<open>Global_count inside the scope of the lock\<close>

lemma run_split:
  assumes "run ps s = tr1 @ (p, a, b) # tr2"
  shows "\<exists>qs rs. a = exec qs s \<and> sys_step p a = Some b \<and> tr2 = run rs b"
  using assms
proof (induction ps s arbitrary: tr1 rule: run.induct)
  case (1 s)
  then show ?case by simp
next
  case (2 q ps s)
  show ?case
  proof (cases "sys_step q s")
    case None
    then obtain qs rs where r: "a = exec qs s" "sys_step p a = Some b" "tr2 = run rs b"
      using "2.IH"(1) [of tr1] "2.prems" by auto
    have "a = exec (q # qs) s"
      using None r(1) by simp
    then show ?thesis
      using r(2,3) by blast
  next
    case (Some s')
    show ?thesis
    proof (cases tr1)
      case Nil
      then have "a = exec [] s" "sys_step p a = Some b" "tr2 = run ps b"
        using "2.prems" Some by auto
      then show ?thesis by blast
    next
      case (Cons e tr1')
      then have "run ps s' = tr1' @ (p, a, b) # tr2"
        using "2.prems" Some by simp
      then obtain qs rs where r: "a = exec qs s'" "sys_step p a = Some b" "tr2 = run rs b"
        using "2.IH"(2) [OF Some, of tr1'] by auto
      have "a = exec (q # qs) s"
        using Some r(1) by simp
      then show ?thesis
        using r(2,3) by blast
    qed
  qed
qed

lemma sys_inv_wpc_ok:
  assumes "sys_inv s" and "pc_of s p = Some c"
  shows "wpc_ok c"
proof -
  have "worker_ok s p"
    using assms(1) by (simp add: sys_inv_def)
  then show ?thesis
    using assms(2) by (auto simp: worker_ok_def pc_of_def split: option.splits)
qed

lemma WorkerThread_step_outside:
  assumes "WorkerThread_step q w g = Some (w', g')" and "\<not> holds_lock (pc w)"
    and "globalMutex g \<noteq> None"
  shows "g' = g"
  using assms by (cases rule: WorkerThread_step_cases) auto

lemma main_step_threads:
  assumes "main_step s = Some s'" and "main_ok s" and "threads s p = Some w"
  shows "threads s' p = Some w" and "Global_count (shared s') = Global_count (shared s)"
  using assms(1)
  by (cases rule: main_step_cases;
      use assms(2,3) in \<open>auto simp: main_ok_def print_line_def data_manager_dtor_def\<close>)+

text \<open>An activation whose increment has overflowed takes no further step.\<close>

lemma undefined_stuck:
  assumes "sys_inv s" and "pc_of s p = Some Undefined"
  shows "pc_of (exec ps s) p = Some Undefined"
proof -
  let ?P = "\<lambda>t. sys_inv t \<and> pc_of t p = Some Undefined"
  have "?P (exec ps s)"
  proof (rule exec_invariant [where P = ?P])
    show "?P s" using assms by simp
  next
    fix q t t'
    assume P: "?P t" and st: "sys_step q t = Some t'"
    obtain w where w: "threads t p = Some w" "pc w = Undefined"
      using P by (auto simp: pc_of_def)
    from st have "pc_of t' p = Some Undefined"
    proof (cases rule: sys_step_cases)
      case Main
      then show ?thesis
        using main_step_threads(1) [OF Main(2) _ w(1)] P w(2)
        by (simp add: sys_inv_def pc_of_def)
    next
      case (Worker v v' g)
      show ?thesis
      proof (cases "q = p")
        case True
        then show ?thesis
          using Worker(2,3) w by (simp add: WorkerThread_step_def)
      next
        case False
        then show ?thesis
          using Worker(4) w by (simp add: pc_of_def)
      qed
    qed
    then show "?P t'"
      using P sys_inv_step [OF _ st] by simp
  qed
  then show ?thesis by simp
qed

text \<open>
  From the status output of iteration \<open>i\<close> to its load check, the activation holds the
  mutex and no step of the program changes \<open>Global_count\<close>; afterwards the activation
  does not come back to these statements.
\<close>

lemma count_held:
  assumes "sys_inv s" and "pc_of s p = Some (Status i)"
  shows "\<exists>c. pc_of (exec ps s) p = Some c \<and>
           ((c = Status i \<or> c = LoadCheck i) \<and>
              Global_count (shared (exec ps s)) = Global_count (shared s) \<or>
            position (LoadCheck i) < position c)"
proof -
  have i: "0 \<le> sint i" "sint i < maxCount"
    using sys_inv_wpc_ok [OF assms] by simp_all
  then have ni: "nat (sint i) < 10"
    by (simp add: maxCount_def)
  let ?v = "Global_count (shared s)"
  let ?Q = "\<lambda>t c. (c = Status i \<or> c = LoadCheck i) \<and> Global_count (shared t) = ?v \<or>
                   position (LoadCheck i) < position c"
  let ?P = "\<lambda>t. sys_inv t \<and> (\<exists>c. pc_of t p = Some c \<and> ?Q t c)"
  have "?P (exec ps s)"
  proof (rule exec_invariant [where P = ?P])
    show "?P s" using assms by simp
  next
    fix q t t'
    assume P: "?P t" and st: "sys_step q t = Some t'"
    then obtain w where w: "threads t p = Some w" and Q: "?Q t (pc w)"
      by (auto simp: pc_of_def)
    have inv: "sys_inv t" using P by simp
    have wok: "wpc_ok (pc w)"
      using sys_inv_wpc_ok [OF inv, of p "pc w"] w by (simp add: pc_of_def)
    from st have "\<exists>c. pc_of t' p = Some c \<and> ?Q t' c"
    proof (cases rule: sys_step_cases)
      case Main
      have "threads t' p = Some w" "Global_count (shared t') = Global_count (shared t)"
        using main_step_threads [OF Main(2) _ w] inv by (simp_all add: sys_inv_def)
      then show ?thesis
        using Q by (simp add: pc_of_def)
    next
      case (Worker v v' g)
      show ?thesis
      proof (cases "q = p")
        case True
        then have vw: "v = w" using Worker(2) w by simp
        have t'p: "pc_of t' p = Some (pc v')"
          using Worker(4) True by (simp add: pc_of_def)
        from Q show ?thesis
        proof (elim disjE conjE)
          assume "pc w = Status i" and g: "Global_count (shared t) = ?v"
          then have "pc v' = LoadCheck i \<and> Global_count g = Global_count (shared t)"
            using Worker(3) vw by (auto simp: WorkerThread_step_def print_line_def)
          then show ?thesis
            using t'p g Worker(4) by simp
        next
          assume "pc w = LoadCheck i" and g: "Global_count (shared t) = ?v"
          then have "pc v' = Unlock i"
            using Worker(3) vw by (auto simp: WorkerThread_step_def)
          then show ?thesis
            using t'p by simp
        next
          assume lt: "position (LoadCheck i) < position (pc w)"
          show ?thesis
          proof (cases "pc v' = Undefined")
            case True
            then show ?thesis
              using t'p ni by (simp add: maxCount_def)
          next
            case False
            then have "position (pc v') = Suc (position (pc w))"
              using WorkerThread_step_position(1) [OF Worker(3)] wok vw by simp
            then show ?thesis
              using t'p lt by simp
          qed
        qed
      next
        case False
        have t'p: "pc_of t' p = Some (pc w)"
          using Worker(4) False w by (simp add: pc_of_def)
        show ?thesis
        proof (cases "position (LoadCheck i) < position (pc w)")
          case True
          then show ?thesis using t'p by simp
        next
          case False
          then have c: "pc w = Status i \<or> pc w = LoadCheck i"
            and g: "Global_count (shared t) = ?v"
            using Q by auto
          then have "holds_lock (pc w)" by auto
          then have m: "globalMutex (shared t) = Some p"
            using holds_lock_mutex [OF inv, of p "pc w"] w by (simp add: pc_of_def)
          then have "\<not> in_lock_scope t q"
            using mutex_okD [of t q] inv \<open>q \<noteq> p\<close> by (auto simp: sys_inv_def)
          then have "\<not> holds_lock (pc v)"
            using Worker(2) by (simp add: in_lock_scope_def)
          then have "g = shared t"
            using WorkerThread_step_outside [OF Worker(3)] m by simp
          then show ?thesis
            using t'p c g Worker(4) by auto
        qed
      qed
    qed
    then show "?P t'"
      using inv sys_inv_step [OF _ st] by simp
  qed
  then show ?thesis by simp
qed

section \<open>The increment and the load check of an iteration\<close>

lemma increment_step:
  assumes "sys_step p a = Some b" and "pc_of a p = Some (Increment i)" and "p \<noteq> Main"
  shows "pc_of b p = Some (Status i) \<or> pc_of b p = Some Undefined"
  using assms(1)
proof (cases rule: sys_step_cases)
  case Main
  then show ?thesis using assms(3) by simp
next
  case (Worker w w' g)
  from Worker(3) show ?thesis
    using assms(2) Worker(2,4)
    by (cases rule: WorkerThread_step_cases) (auto simp: pc_of_def)
qed

lemma load_check_step:
  assumes "sys_step p c = Some d" and "pc_of c p = Some (LoadCheck i)" and "p \<noteq> Main"
  shows "cout (shared d) =
           (if 50 < sint (Global_count (shared c)) then cout (shared c) @ [warning_line]
            else cout (shared c))"
  using assms(1)
proof (cases rule: sys_step_cases)
  case Main
  then show ?thesis using assms(3) by simp
next
  case (Worker w w' g)
  from Worker(3) show ?thesis
    using assms(2) Worker(2,4)
    by (cases rule: WorkerThread_step_cases) (auto simp: pc_of_def print_line_def)
qed

lemma pc_of_not_Main: "sys_inv s \<Longrightarrow> pc_of s p = Some c \<Longrightarrow> p \<noteq> Main"
  by (auto simp: sys_inv_def main_ok_def pc_of_def)

lemma split_4_7:
  assumes "length xs = 8" and "fst (xs ! 4) = p" and "fst (xs ! 7) = p"
  shows "xs = take 4 xs @ [(p, fst (snd (xs ! 4)), snd (snd (xs ! 4)))] @
              take 2 (drop 5 xs) @ [(p, fst (snd (xs ! 7)), snd (snd (xs ! 7)))] @ []"
proof -
  have "xs = take 4 xs @ xs ! 4 # drop 5 xs"
    using id_take_nth_drop [of 4 xs] assms(1) by simp
  moreover have "drop 5 xs = take 2 (drop 5 xs) @ drop 5 xs ! 2 # drop 3 (drop 5 xs)"
    using id_take_nth_drop [of 2 "drop 5 xs"] assms(1) by simp
  moreover have "drop 5 xs ! 2 = xs ! 7" "drop 3 (drop 5 xs) = []"
    using assms(1) by simp_all
  moreover have "xs ! 4 = (p, fst (snd (xs ! 4)), snd (snd (xs ! 4)))"
    "xs ! 7 = (p, fst (snd (xs ! 7)), snd (snd (xs ! 7)))"
    using assms(2,3) by (metis prod.collapse)+
  ultimately show ?thesis
    by (metis append_Cons append_Nil append_Nil2)
qed

section \<open>The statements of an activation\<close>





section \<open>Runs from the entry of an activation\<close>




section \<open>The statements executed by a thread\<close>


lemma run_single:
  "run [q] t = (case sys_step q t of None \<Rightarrow> [] | Some t' \<Rightarrow> [(q, t, t')])"
  by (simp split: option.splits)

lemma exec_single:
  "exec [q] t = (case sys_step q t of None \<Rightarrow> t | Some t' \<Rightarrow> t')"
  by (simp split: option.splits)



lemma sys_step_main_cfg:
  assumes "sys_step p s = Some s'"
  shows "main_cfg s' = main_cfg s"
  using assms
proof (cases rule: sys_step_cases)
  case Main
  from Main(2) show ?thesis
    by (cases rule: main_step_cases) auto
next
  case (Worker w w' g)
  then show ?thesis by simp
qed

lemma exec_main_cfg: "main_cfg (exec ps s) = main_cfg s"
  by (rule exec_invariant [where P = "\<lambda>t. main_cfg t = main_cfg s"])
    (simp_all add: sys_step_main_cfg)




section \<open>The arguments of an activation and the effect of its statements\<close>











section \<open>The final value of Global_count\<close>

text \<open>
  C2: in the program, where two workers run \<open>maxCount = 10\<close> iterations each on
  \<open>Global_count\<close>, initially 0, and increment it inside the scope of the lock, the
  counter is exactly 20 once both workers are joined, whatever the schedule: in every
  state of every run in which both \<^verbatim>\<open>join\<close> calls have returned
  \<open>Global_count = 20\<close>, and every run can be continued to such a state.
\<close>

theorem final_count:
  "(main sched = Inr s \<and> both_joined s \<longrightarrow> sint (Global_count (shared s)) = 20) \<and>
   (\<exists>sched' s'. main (sched @ sched') = Inr s' \<and> both_joined s')"
proof
  show "main sched = Inr s \<and> both_joined s \<longrightarrow> sint (Global_count (shared s)) = 20"
  proof
    assume a: "main sched = Inr s \<and> both_joined s"
    then have s: "s = exec sched program_start"
      by (simp add: main_exec)
    show "sint (Global_count (shared s)) = 20"
      using joined_count [of s 0] program_invariants [of sched] a s
      by (simp add: maxCount_def)
  qed
next
  let ?s = "exec sched program_start"
  have "(0::int) + 2 * maxCount \<le> INT_MAX"
    by (simp add: maxCount_def INT_MAX_def)
  then obtain ps where "main_pc (exec ps ?s) = Exited"
    using can_finish [of ?s 0] program_invariants [of sched] by blast
  then have "main (sched @ ps) = Inr (exec (sched @ ps) program_start) \<and>
      both_joined (exec (sched @ ps) program_start)"
    by (simp add: main_exec exec_append both_joined_def)
  then show "\<exists>sched' s'. main (sched @ sched') = Inr s' \<and> both_joined s'"
    by blast
qed

theorem final_count_witness:
  "\<exists>s. main ([Main, T1, T1, T1, Main, T2, T2, T2] @ replicate 58 T1 @ replicate 61 T2 @ [Main, Main, Main]) = Inr s \<and>
      both_joined s \<and> sint (Global_count (shared s)) = 20"
proof -
  let ?sched = "[Main, T1, T1, T1, Main, T2, T2, T2] @ replicate 58 T1 @ replicate 61 T2 @ [Main, Main, Main]"
  have m: "main ?sched = Inr (exec ?sched program_start)"
    by (rule main_exec)
  have j: "both_joined (exec ?sched program_start)"
    by code_simp
  have "sint (Global_count (shared (exec ?sched program_start))) = 20"
    using final_count [of ?sched "exec ?sched program_start"] m j by blast
  then show ?thesis
    using m j by blast
qed

section \<open>Global_count during a run\<close>

text \<open>
  C10 (as stated: \<open>Global_count\<close> starts at 0, is modified only by adding 1 inside
  WorkerThread, never decreases, and at every moment equals the number of worker
  iterations completed so far). The last part fails between the increment and the end of
  an iteration: after \<open>t1\<close> has been created and has executed the loop test, the lock and
  the increment of its first iteration, \<open>Global_count\<close> is 1 while no iteration has been
  completed.
\<close>

theorem count_vs_completed_counterexample:
  "main [Main, T1, T1, T1] = Inr (exec [Main, T1, T1, T1] program_start) \<and>
   sint (Global_count (shared (exec [Main, T1, T1, T1] program_start))) = 1 \<and>
   iterations_completed (exec [Main, T1, T1, T1] program_start) = 0"
proof -
  have "sint (Global_count (shared (exec [Main, T1, T1, T1] program_start))) = 1"
    by code_simp
  moreover have "iterations_completed (exec [Main, T1, T1, T1] program_start) = 0"
    by code_simp
  ultimately show ?thesis
    by (simp add: main_exec)
qed

text \<open>
  C10 (amended): in every run of the program \<open>Global_count\<close> starts at 0, is changed
  only by the increment statement of a WorkerThread activation, which adds exactly 1, and
  so never decreases; at every moment it equals the number of worker iterations whose
  increment has been executed, which is the number of iterations completed so far or
  that number plus 1 (while a worker is between its increment and the end of that
  iteration); whenever the mutex is free it equals the number of iterations completed.
\<close>

theorem count_never_decreases:
  assumes "main sched = Inr s" and "main (sched @ sched') = Inr s'"
  shows "Global_count (shared program_start) = 0 \<and>
         sint (Global_count (shared s)) \<le> sint (Global_count (shared s')) \<and>
         sint (Global_count (shared s)) = increments_executed s \<and>
         iterations_completed s \<le> sint (Global_count (shared s)) \<and>
         sint (Global_count (shared s)) \<le> iterations_completed s + 1 \<and>
         (globalMutex (shared s) = None \<longrightarrow>
            sint (Global_count (shared s)) = iterations_completed s) \<and>
         (\<forall>(p, a, b) \<in> set (run sched program_start).
            Global_count (shared b) \<noteq> Global_count (shared a) \<longrightarrow>
              p \<noteq> Main \<and> (\<exists>i. pc_of a p = Some (Increment i)) \<and>
              sint (Global_count (shared b)) = sint (Global_count (shared a)) + 1)"
proof -
  have s: "s = exec sched program_start" and s': "s' = exec sched' s"
    using assms by (simp_all add: main_exec exec_append)
  have b: "(0::int) + 2 * maxCount \<le> INT_MAX"
    by (simp add: maxCount_def INT_MAX_def)
  have inv: "sys_inv s" "count_ok 0 s"
    using program_invariants [of sched] s by simp_all
  have c: "sint (Global_count (shared s)) = increments_executed s"
    using inv(2) by (simp add: count_ok_def)
  have steps: "p \<noteq> Main \<and> (\<exists>i. pc_of a p = Some (Increment i)) \<and>
              sint (Global_count (shared b)) = sint (Global_count (shared a)) + 1"
    if e: "(p, a, b) \<in> set (run sched program_start)"
      and ne: "Global_count (shared b) \<noteq> Global_count (shared a)" for p a b
  proof -
    obtain qs where a: "a = exec qs program_start" and st: "sys_step p a = Some b"
      using run_steps [OF e] by blast
    have "sys_inv a" "count_ok 0 a"
      using program_invariants [of qs] a by simp_all
    then have "sint (Global_count (shared b)) = sint (Global_count (shared a)) \<or>
               sint (Global_count (shared b)) = sint (Global_count (shared a)) + 1"
      using count_ok_step(2) [OF _ _ b st] by simp
    moreover have "sint (Global_count (shared b)) \<noteq> sint (Global_count (shared a))"
      using ne signed_word_eqI [of "Global_count (shared b)" "Global_count (shared a)"] by blast
    ultimately show ?thesis
      using sys_step_changes_count [OF st ne] by blast
  qed
  show ?thesis
    using count_mono [OF inv b, of sched'] s' c iterations_completed_bounds [OF inv(1)] steps
    by (auto simp: program_start_def)
qed

theorem count_never_decreases_witness:
  "main [Main, T1, T1, T1] = Inr (exec [Main, T1, T1, T1] program_start) \<and>
   main ([Main, T1, T1, T1] @ [Main, T2, T1, T1, T1, T2, T2, T2]) =
     Inr (exec ([Main, T1, T1, T1] @ [Main, T2, T1, T1, T1, T2, T2, T2]) program_start) \<and>
   sint (Global_count (shared (exec [Main, T1, T1, T1] program_start))) = 1 \<and>
   sint (Global_count (shared (exec ([Main, T1, T1, T1] @ [Main, T2, T1, T1, T1, T2, T2, T2])
      program_start))) = 2 \<and>
   sint (Global_count (shared (exec [Main, T1, T1, T1] program_start)))
     \<le> sint (Global_count (shared (exec ([Main, T1, T1, T1] @ [Main, T2, T1, T1, T1, T2, T2, T2])
           program_start))) \<and>
   sint (Global_count (shared (exec [Main, T1, T1, T1] program_start)))
     = increments_executed (exec [Main, T1, T1, T1] program_start)"
proof -
  let ?a = "[Main, T1, T1, T1]"
  let ?b = "[Main, T2, T1, T1, T1, T2, T2, T2]"
  have m: "main ?a = Inr (exec ?a program_start)"
    "main (?a @ ?b) = Inr (exec (?a @ ?b) program_start)"
    by (rule main_exec)+
  have v: "sint (Global_count (shared (exec ?a program_start))) = 1"
    "sint (Global_count (shared (exec (?a @ ?b) program_start))) = 2"
    by code_simp+
  show ?thesis
    using count_never_decreases [OF m] m v by simp
qed

section \<open>The warning line\<close>

text \<open>
  C9: the high-load warning line is written while the worker holds the mutex, inside the
  scope of the \<^verbatim>\<open>lock_guard\<close> of the iteration, not after its release. In every run
  from the creation of the threads (whatever the value of \<open>Global_count\<close> there), a step
  that writes the warning line is the load check of a worker that is inside the scope of
  its lock and holds the mutex before and after the step.
\<close>

theorem warning_under_lock:
  assumes "at_spawn s0" and "(p, a, b) \<in> set (run sched s0)"
    and "cout (shared b) = cout (shared a) @ [warning_line]"
  shows "(\<exists>i. pc_of a p = Some (LoadCheck i) \<and> pc_of b p = Some (Unlock i)) \<and>
         in_lock_scope a p \<and> in_lock_scope b p \<and>
         globalMutex (shared a) = Some p \<and> globalMutex (shared b) = Some p"
proof -
  obtain qs where a: "a = exec qs s0" and st: "sys_step p a = Some b"
    using run_steps [OF assms(2)] by blast
  have inv: "sys_inv a"
    using sys_inv_exec [OF at_spawn_sys_inv [OF assms(1)], of qs] a by simp
  obtain i where i: "pc_of a p = Some (LoadCheck i)" "pc_of b p = Some (Unlock i)"
    "globalMutex (shared b) = globalMutex (shared a)"
    using warning_step [OF st assms(3)] by blast
  have m: "globalMutex (shared a) = Some p"
    using holds_lock_mutex [OF inv i(1)] by simp
  have "in_lock_scope a p" "in_lock_scope b p"
    using i(1,2) by (auto simp: in_lock_scope_def pc_of_def)
  then show ?thesis
    using i m by simp
qed

theorem warning_under_lock_witness:
  "at_spawn (program_start\<lparr>shared := (shared program_start)\<lparr>Global_count := 50\<rparr>\<rparr>) \<and>
   last (run [Main, T1, T1, T1, T1, T1]
           (program_start\<lparr>shared := (shared program_start)\<lparr>Global_count := 50\<rparr>\<rparr>))
     \<in> set (run [Main, T1, T1, T1, T1, T1]
           (program_start\<lparr>shared := (shared program_start)\<lparr>Global_count := 50\<rparr>\<rparr>)) \<and>
   fst (last (run [Main, T1, T1, T1, T1, T1]
           (program_start\<lparr>shared := (shared program_start)\<lparr>Global_count := 50\<rparr>\<rparr>))) = T1 \<and>
   cout (shared (snd (snd (last (run [Main, T1, T1, T1, T1, T1]
           (program_start\<lparr>shared := (shared program_start)\<lparr>Global_count := 50\<rparr>\<rparr>)))))) =
     cout (shared (fst (snd (last (run [Main, T1, T1, T1, T1, T1]
           (program_start\<lparr>shared := (shared program_start)\<lparr>Global_count := 50\<rparr>\<rparr>)))))) @
     [warning_line] \<and>
   globalMutex (shared (fst (snd (last (run [Main, T1, T1, T1, T1, T1]
           (program_start\<lparr>shared := (shared program_start)\<lparr>Global_count := 50\<rparr>\<rparr>)))))) = Some T1 \<and>
   globalMutex (shared (snd (snd (last (run [Main, T1, T1, T1, T1, T1]
           (program_start\<lparr>shared := (shared program_start)\<lparr>Global_count := 50\<rparr>\<rparr>)))))) = Some T1"
proof -
  let ?s0 = "program_start\<lparr>shared := (shared program_start)\<lparr>Global_count := 50\<rparr>\<rparr>"
  let ?tr = "run [Main, T1, T1, T1, T1, T1] ?s0"
  let ?a = "fst (snd (last ?tr))"
  let ?b = "snd (snd (last ?tr))"
  have sp: "at_spawn ?s0"
    by (simp add: at_spawn_def program_start_def)
  have ne: "?tr \<noteq> []"
    by code_simp
  have p: "fst (last ?tr) = T1"
    by code_simp
  have mem: "(T1, ?a, ?b) \<in> set ?tr"
    using last_in_set [OF ne] p by (metis prod.collapse)
  have w: "cout (shared ?b) = cout (shared ?a) @ [warning_line]"
    by code_simp
  show ?thesis
    using warning_under_lock [OF sp mem w] sp last_in_set [OF ne] p w by simp
qed

section \<open>When the warning line is written\<close>

text \<open>
  C6: in WorkerThread the warning line is written on an iteration if and only if the
  value of \<open>Global_count\<close> immediately after the increment of that iteration exceeds 50.
  In every run from the creation of the threads: when a worker \<open>p\<close> executes the
  increment of its iteration \<open>i\<close> (the step from \<open>a\<close> to \<open>b\<close>) and later the load check of
  iteration \<open>i\<close> (the step from \<open>c\<close> to \<open>d\<close>), with any steps of any threads between them,
  the load check appends the warning line if and only if \<open>Global_count\<close> in \<open>b\<close> exceeds
  50, and otherwise writes nothing; and no step other than a load check writes the
  warning line.
\<close>

theorem warning_iff_count_after_increment:
  assumes "at_spawn s0"
    and "run sched s0 = tr1 @ [(p, a, b)] @ tr2 @ [(p, c, d)] @ tr3"
    and "pc_of a p = Some (Increment i)" and "pc_of c p = Some (LoadCheck i)"
  shows "(cout (shared d) = cout (shared c) @ [warning_line]
            \<longleftrightarrow> 50 < sint (Global_count (shared b))) \<and>
         (cout (shared d) = cout (shared c) \<longleftrightarrow> \<not> 50 < sint (Global_count (shared b))) \<and>
         (\<forall>(q, x, y) \<in> set (run sched s0).
            cout (shared y) = cout (shared x) @ [warning_line] \<longrightarrow>
              (\<exists>j. pc_of x q = Some (LoadCheck j)))"
proof -
  have inv0: "sys_inv s0"
    using assms(1) by (rule at_spawn_sys_inv)
  have r1: "run sched s0 = tr1 @ (p, a, b) # (tr2 @ (p, c, d) # tr3)"
    using assms(2) by simp
  obtain qs rs where a: "a = exec qs s0" and ab: "sys_step p a = Some b"
    and r2: "tr2 @ (p, c, d) # tr3 = run rs b"
    using run_split [OF r1] by blast
  obtain qs' rs' where c: "c = exec qs' b" and cd: "sys_step p c = Some d"
    using run_split [OF r2 [symmetric]] by blast
  have inva: "sys_inv a"
    using sys_inv_exec [OF inv0, of qs] a by simp
  have invb: "sys_inv b"
    using sys_inv_step [OF inva ab] .
  have pm: "p \<noteq> Main"
    using pc_of_not_Main [OF inva assms(3)] .
  have nu: "pc_of b p \<noteq> Some Undefined"
  proof
    assume "pc_of b p = Some Undefined"
    then have "pc_of c p = Some Undefined"
      using undefined_stuck [OF invb, of p qs'] c by simp
    then show False
      using assms(4) by simp
  qed
  then have st: "pc_of b p = Some (Status i)"
    using increment_step [OF ab assms(3) pm] by simp
  have same: "Global_count (shared c) = Global_count (shared b)"
    using count_held [OF invb st, of qs'] c assms(4) by auto
  have out: "cout (shared d) =
      (if 50 < sint (Global_count (shared b)) then cout (shared c) @ [warning_line]
       else cout (shared c))"
    using load_check_step [OF cd assms(4) pm] same by simp
  have others: "\<exists>j. pc_of x q = Some (LoadCheck j)"
    if "(q, x, y) \<in> set (run sched s0)"
      and "cout (shared y) = cout (shared x) @ [warning_line]" for q x y
    using run_steps [OF that(1)] warning_step [of q x y] that(2) by blast
  show ?thesis
    using out others by auto
qed

theorem warning_iff_count_after_increment_witness:
  "at_spawn (program_start\<lparr>shared := (shared program_start)\<lparr>Global_count := 50\<rparr>\<rparr>) \<and>
   length (run [Main, Main, T1, T1, T1, T2, T2, T1, T2, T1]
     (program_start\<lparr>shared := (shared program_start)\<lparr>Global_count := 50\<rparr>\<rparr>)) = 8 \<and>
   pc_of (fst (snd (run [Main, Main, T1, T1, T1, T2, T2, T1, T2, T1]
     (program_start\<lparr>shared := (shared program_start)\<lparr>Global_count := 50\<rparr>\<rparr>) ! 4))) T1
     = Some (Increment 0) \<and>
   pc_of (fst (snd (run [Main, Main, T1, T1, T1, T2, T2, T1, T2, T1]
     (program_start\<lparr>shared := (shared program_start)\<lparr>Global_count := 50\<rparr>\<rparr>) ! 7))) T1
     = Some (LoadCheck 0) \<and>
   sint (Global_count (shared (snd (snd (run [Main, Main, T1, T1, T1, T2, T2, T1, T2, T1]
     (program_start\<lparr>shared := (shared program_start)\<lparr>Global_count := 50\<rparr>\<rparr>) ! 4))))) = 51 \<and>
   cout (shared (snd (snd (run [Main, Main, T1, T1, T1, T2, T2, T1, T2, T1]
     (program_start\<lparr>shared := (shared program_start)\<lparr>Global_count := 50\<rparr>\<rparr>) ! 7)))) =
   cout (shared (fst (snd (run [Main, Main, T1, T1, T1, T2, T2, T1, T2, T1]
     (program_start\<lparr>shared := (shared program_start)\<lparr>Global_count := 50\<rparr>\<rparr>) ! 7)))) @
     [warning_line]"
proof -
  define s0 where "s0 = program_start\<lparr>shared := (shared program_start)\<lparr>Global_count := 50\<rparr>\<rparr>"
  define tr where "tr = run [Main, Main, T1, T1, T1, T2, T2, T1, T2, T1] s0"
  let ?a = "fst (snd (tr ! 4))"
  let ?b = "snd (snd (tr ! 4))"
  let ?c = "fst (snd (tr ! 7))"
  let ?d = "snd (snd (tr ! 7))"
  have sp: "at_spawn s0"
    by (simp add: s0_def at_spawn_def program_start_def)
  have len: "length tr = 8"
    unfolding tr_def s0_def by code_simp
  have p4: "fst (tr ! 4) = T1" and p7: "fst (tr ! 7) = T1"
    unfolding tr_def s0_def by code_simp+
  have split: "run [Main, Main, T1, T1, T1, T2, T2, T1, T2, T1] s0 =
      take 4 tr @ [(T1, ?a, ?b)] @ take 2 (drop 5 tr) @ [(T1, ?c, ?d)] @ []"
    using split_4_7 [OF len p4 p7] by (simp only: tr_def [symmetric])
  have pa: "pc_of ?a T1 = Some (Increment 0)" and pc: "pc_of ?c T1 = Some (LoadCheck 0)"
    unfolding tr_def s0_def by code_simp+
  have v: "sint (Global_count (shared ?b)) = 51"
    unfolding tr_def s0_def by code_simp
  have "cout (shared ?d) = cout (shared ?c) @ [warning_line]"
    using warning_iff_count_after_increment [OF sp split pa pc] v by simp
  then show ?thesis
    using sp len pa pc v unfolding tr_def s0_def by blast
qed

section \<open>The iterations of an activation\<close>





end
